theory Spec2Isabelle
  imports Main "HOL-Library.Word"
begin

section \<open>Minimal JSON support for Arduino: the data model of JSON.cpp\<close>

text \<open>
  The development follows \<^verbatim>\<open>JSON.cpp\<close>. Where \<^verbatim>\<open>JSON.h\<close> and \<^verbatim>\<open>JSON.cpp\<close>
  disagree (the header still declares \<^verbatim>\<open>tag\<close>/\<^verbatim>\<open>token_len\<close> and has no
  \<^verbatim>\<open>Unused_t\<close>), the implementation file is followed.

  \<^verbatim>\<open>unsigned int\<close> is taken to be 32 bits wide and \<^verbatim>\<open>int\<close> its two's complement
  reading (\<open>sint\<close>).
\<close>

type_synonym uint = "32 word"

text \<open>
  What can go wrong below the level of the C++ source: a read outside the bytes the
  caller handed over, a member access through a null pointer, and (for the recursive
  functions, which are given a recursion budget) the budget running out.
\<close>

datatype error = OutOfBounds | NullPointer | OutOfFuel

text \<open>Sequencing: the first error ends the computation.\<close>

definition then_do :: "error + 'a \<Rightarrow> ('a \<Rightarrow> error + 'b) \<Rightarrow> error + 'b" where
  "then_do m f = (case m of Inl e \<Rightarrow> Inl e | Inr x \<Rightarrow> f x)"

lemma then_do_Inl [simp]: "then_do (Inl e) f = Inl e"
  by (simp add: then_do_def)

lemma then_do_Inr [simp]: "then_do (Inr x) f = f x"
  by (simp add: then_do_def)

lemma then_do_cong [cong]: "m = m' \<Longrightarrow> then_do m f = then_do m' f"
  by simp

lemma then_do_context [fundef_cong]:
  "m = m' \<Longrightarrow> (\<And>x. m' = Inr x \<Longrightarrow> f x = f' x) \<Longrightarrow> then_do m f = then_do m' f'"
  by (cases m') simp_all

datatype Json_Tag = Object_t | Array_t | String_t | Unsigned_t | Signed_t | Float_t
  | Boolean_t | Null_t | Unused_t

datatype Json_Token = Error_token | String_token | Colon_token | Comma_token
  | Object_start_token | Object_stop_token | Array_start_token | Array_stop_token
  | Float_token | Unsigned_token | Signed_token | Null_token | True_token | False_token

subsection \<open>What JSON.cpp takes from outside\<close>

text \<open>
  \<^verbatim>\<open>sscanf\<close> belongs to the C library and \<^verbatim>\<open>JSON_SYMBOL_BASE\<close> is a macro of a header
  that is not part of these sources; both are parameters. Each conversion receives the
  bytes that start at \<^verbatim>\<open>token_src\<close> (the call passes no length) and yields the converted
  number, or \<open>None\<close> when \<^verbatim>\<open>sscanf\<close> converts nothing and leaves its target as it was.
  The type \<open>'f\<close> stands for \<^verbatim>\<open>float\<close>.
\<close>

record 'f Env =
  sscanf_f :: "string \<Rightarrow> 'f option"
  sscanf_d :: "string \<Rightarrow> uint option"
  sscanf_u :: "string \<Rightarrow> uint option"
  JSON_SYMBOL_BASE :: uint

subsection \<open>The symbol table\<close>

text \<open>
  Modelled from the spec: \<^verbatim>\<open>HashTable\<close> (\<^verbatim>\<open>HashTable.h\<close> is not part of these
  sources). \<^verbatim>\<open>get_symbol\<close> interns a slice of text: identical text yields the same id
  within one table, and a text seen for the first time gets the value of the counter,
  which is then advanced.
\<close>

type_synonym HashTable = "(string \<times> uint) list"

definition get_symbol :: "HashTable \<Rightarrow> string \<Rightarrow> uint \<Rightarrow> uint \<times> uint \<times> HashTable" where
  "get_symbol tbl text symcount =
     (case map_of tbl text of
        Some s \<Rightarrow> (s, symcount, tbl)
      | None \<Rightarrow> (symcount, symcount + 1, (text, symcount) # tbl))"

section \<open>The lexer\<close>

text \<open>
  \<open>buf\<close> holds the bytes the caller handed to \<^verbatim>\<open>parse\<close>; the pointers \<^verbatim>\<open>src\<close> and
  \<^verbatim>\<open>token_src\<close> are offsets into it, and \<open>length_left\<close> is the member \<^verbatim>\<open>length\<close>, the
  remaining-length counter. Reading a byte at an offset that is not in \<open>buf\<close> is the
  error \<open>OutOfBounds\<close>.
\<close>

record 'f Lexer =
  table :: HashTable
  buf :: string
  src :: nat
  length_left :: uint
  token_src :: nat
  token_len :: uint
  unsigned_num :: uint
  signed_num :: uint
  float_num :: 'f

abbreviation byte :: "char \<Rightarrow> nat" where
  "byte ch \<equiv> of_char ch"

text \<open>
  \<^verbatim>\<open>peek_byte\<close> returns an \<^verbatim>\<open>unsigned int\<close>: the value of a byte, or 256 when the counter
  is used up. \<^verbatim>\<open>isspace\<close> and \<^verbatim>\<open>isdigit\<close> are those of the C locale; 256 is neither.
\<close>

definition isspace :: "nat \<Rightarrow> bool" where
  "isspace c = (c = 32 \<or> (9 \<le> c \<and> c \<le> 13))"

definition isdigit :: "nat \<Rightarrow> bool" where
  "isdigit c = (48 \<le> c \<and> c \<le> 57)"

definition deref :: "'f Lexer \<Rightarrow> nat \<Rightarrow> error + nat" where
  "deref lx i = (if i < length (buf lx) then Inr (byte (buf lx ! i)) else Inl OutOfBounds)"

definition peek_byte :: "'f Lexer \<Rightarrow> error + nat" where
  "peek_byte lx = (if 0 < length_left lx then deref lx (src lx) else Inr 256)"

definition next_byte :: "'f Lexer \<Rightarrow> 'f Lexer" where
  "next_byte lx =
     (if 0 < length_left lx
      then lx\<lparr>length_left := length_left lx - 1, src := src lx + 1\<rparr>
      else lx)"

text \<open>
  The loop \<^verbatim>\<open>c = peek_byte(); while (isspace(c)) { next_byte(); c = peek_byte(); }\<close>
  that opens \<^verbatim>\<open>end_of_array\<close> and \<^verbatim>\<open>get_token\<close>; it returns the last \<open>c\<close>.
\<close>

function skip_space :: "'f Lexer \<Rightarrow> error + (nat \<times> 'f Lexer)" where
  "skip_space lx =
     then_do (peek_byte lx)
       (\<lambda>c. if isspace c then skip_space (next_byte lx) else Inr (c, lx))"
  by pat_completeness auto

lemma peek_byte_space_left:
  "peek_byte lx = Inr c \<Longrightarrow> c < 256 \<Longrightarrow> 0 < length_left lx"
  by (auto simp: peek_byte_def split: if_splits)

lemma next_byte_decreases:
  "0 < length_left lx \<Longrightarrow> unat (length_left (next_byte lx)) < unat (length_left lx)"
  by (simp add: next_byte_def unat_minus_one word_neq_0_conv [symmetric] unat_gt_0)

termination skip_space
proof (relation "measure (\<lambda>lx. unat (length_left lx))")
  fix lx :: "'f Lexer" and c
  assume "peek_byte lx = Inr c" "isspace c"
  then have "0 < length_left lx"
    by (intro peek_byte_space_left [of lx c]) (auto simp: isspace_def)
  then show "(next_byte lx, lx) \<in> measure (\<lambda>lx. unat (length_left lx))"
    by (simp add: next_byte_decreases)
qed simp

declare skip_space.simps [simp del]

definition end_of_array :: "'f Lexer \<Rightarrow> error + (bool \<times> 'f Lexer)" where
  "end_of_array lx =
     then_do (skip_space lx)
       (\<lambda>(c, lx'). if c = byte CHR '']'' then Inr (True, lx') else Inr (False, lx'))"

subsection \<open>Strings\<close>

text \<open>
  The loop of \<^verbatim>\<open>get_string\<close>:
  \<^verbatim>\<open>while (length > 0) { --length; if (*src++ == '"') return String_token; ++token_len; }\<close>
\<close>

function string_loop :: "'f Lexer \<Rightarrow> error + (Json_Token \<times> 'f Lexer)" where
  "string_loop lx =
     (if 0 < length_left lx
      then then_do (deref lx (src lx))
             (\<lambda>b. let lx' = lx\<lparr>length_left := length_left lx - 1, src := src lx + 1\<rparr>
                  in if b = byte CHR ''\"''
                     then Inr (String_token, lx')
                     else string_loop (lx'\<lparr>token_len := token_len lx' + 1\<rparr>))
      else Inr (Error_token, lx))"
  by pat_completeness auto

termination string_loop
  by (relation "measure (\<lambda>lx. unat (length_left lx))")
     (simp_all add: unat_minus_one word_neq_0_conv [symmetric] unat_gt_0)

declare string_loop.simps [simp del]

definition get_string :: "'f Lexer \<Rightarrow> error + (Json_Token \<times> 'f Lexer)" where
  "get_string lx =
     (let lx1 = next_byte lx
      in string_loop (lx1\<lparr>token_src := src lx1, token_len := 0\<rparr>))"

subsection \<open>Numbers\<close>

text \<open>The statement pair \<^verbatim>\<open>next_byte(); c = peek_byte();\<close>\<close>

definition advance :: "'f Lexer \<Rightarrow> error + (nat \<times> 'f Lexer)" where
  "advance lx = (let lx' = next_byte lx in then_do (peek_byte lx') (\<lambda>c. Inr (c, lx')))"

text \<open>
  The loop \<^verbatim>\<open>while (isdigit(c)) { ++d; next_byte(); c = peek_byte(); }\<close>, with the
  counter, the current \<open>c\<close> and the lexer as its state. The counters are bounded by the
  number of bytes consumed, so they are counted in \<open>nat\<close>.
\<close>

function digits :: "nat \<Rightarrow> nat \<Rightarrow> 'f Lexer \<Rightarrow> error + (nat \<times> nat \<times> 'f Lexer)" where
  "digits d c lx =
     (if isdigit c
      then then_do (advance lx) (\<lambda>(c', lx'). digits (d + 1) c' lx')
      else Inr (d, c, lx))"
  by pat_completeness auto

lemma advance_measure:
  assumes "advance lx = Inr (c', lx')"
  shows "unat (length_left lx') + (if isdigit c' then 1 else 0) \<le> unat (length_left lx)"
proof (cases "0 < length_left lx")
  case True
  from assms have "lx' = next_byte lx"
    by (auto simp: advance_def Let_def then_do_def split: sum.splits)
  with True have "unat (length_left lx') < unat (length_left lx)"
    by (simp add: next_byte_decreases)
  then show ?thesis by simp
next
  case False
  with assms have "lx' = lx" "c' = 256"
    by (auto simp: advance_def Let_def then_do_def next_byte_def peek_byte_def split: sum.splits)
  then show ?thesis by (simp add: isdigit_def)
qed

termination digits
proof (relation "measure (\<lambda>(d, c, lx). unat (length_left lx) + (if isdigit c then 1 else 0))")
  fix d c and lx :: "'f Lexer" and x :: "nat \<times> 'f Lexer" and c' lx'
  assume "isdigit c" "advance lx = Inr x" "(c', lx') = x"
  then show "((d + 1, c', lx'), (d, c, lx))
      \<in> measure (\<lambda>(d, c, lx). unat (length_left lx) + (if isdigit c then 1 else 0))"
    using advance_measure [of lx c' lx'] by auto
qed simp

declare digits.simps [simp del]

definition get_number :: "'f Env \<Rightarrow> nat \<Rightarrow> 'f Lexer \<Rightarrow> error + (Json_Token \<times> 'f Lexer)" where
  "get_number E c0 lx0 =
     (let lx = lx0\<lparr>token_src := src lx0, token_len := 0\<rparr>;
          negative = (c0 = byte CHR ''-'')
      in then_do (if c0 = byte CHR ''-'' then advance lx else Inr (c0, lx)) (\<lambda>(c1, lx1).
         then_do (if c1 = byte CHR ''.'' then advance lx1 else Inr (c1, lx1)) (\<lambda>(c2, lx2).
         then_do (digits 0 c2 lx2) (\<lambda>(d1, c3, lx3).
         then_do (if c3 = byte CHR ''.'' then advance lx3 else Inr (c3, lx3)) (\<lambda>(c4, lx4).
         then_do (digits d1 c4 lx4) (\<lambda>(d, c5, lx5).
         let exponent = (c5 = byte CHR ''e'' \<or> c5 = byte CHR ''E'')
         in if exponent \<and> d = 0 then Inr (Error_token, lx5)
         else
         then_do (if exponent then advance lx5 else Inr (c5, lx5)) (\<lambda>(c6, lx6).
         let real = (c1 = byte CHR ''.'' \<or> c3 = byte CHR ''.'' \<or> exponent)
         in
         then_do (if c6 = byte CHR ''-'' then advance lx6 else Inr (c6, lx6)) (\<lambda>(c7, lx7).
         then_do (digits 0 c7 lx7) (\<lambda>(e, c8, lx8).
         let text = drop (token_src lx8) (buf lx8)
         in if d = 0 \<and> e = 0 then Inr (Error_token, lx8)
         else if real then
           Inr (Float_token,
                lx8\<lparr>float_num := (case sscanf_f E text of None \<Rightarrow> float_num lx8 | Some x \<Rightarrow> x)\<rparr>)
         else if negative then
           Inr (Signed_token,
                lx8\<lparr>signed_num := (case sscanf_d E text of None \<Rightarrow> signed_num lx8 | Some x \<Rightarrow> x)\<rparr>)
         else
           Inr (Unsigned_token,
                lx8\<lparr>unsigned_num :=
                  (case sscanf_u E text of None \<Rightarrow> unsigned_num lx8 | Some x \<Rightarrow> x)\<rparr>))))))))))"

subsection \<open>The literals null, true and false\<close>

text \<open>
  The conjunction \<^verbatim>\<open>src[i] == ... && src[i+1] == ... && ...\<close>: the bytes are read
  from left to right, and the first mismatch ends the reading.
\<close>

fun matches :: "'f Lexer \<Rightarrow> nat \<Rightarrow> string \<Rightarrow> error + bool" where
  "matches lx i [] = Inr True"
| "matches lx i (ch # rest) =
     then_do (deref lx (src lx + i))
       (\<lambda>b. if b = byte ch then matches lx (i + 1) rest else Inr False)"

definition get_special :: "nat \<Rightarrow> 'f Lexer \<Rightarrow> error + (Json_Token \<times> 'f Lexer)" where
  "get_special c lx =
     (if c = byte CHR ''n'' then
        then_do (if 4 \<le> length_left lx then matches lx 1 ''ull'' else Inr False)
          (\<lambda>found. if found
             then Inr (Null_token, lx\<lparr>src := src lx + 4, length_left := length_left lx + 4\<rparr>)
             else Inr (Error_token, lx))
      else if c = byte CHR ''t'' then
        then_do (if 4 \<le> length_left lx then matches lx 1 ''rue'' else Inr False)
          (\<lambda>found. if found
             then Inr (True_token, lx\<lparr>src := src lx + 4, length_left := length_left lx + 4\<rparr>)
             else Inr (Error_token, lx))
      else if c = byte CHR ''f'' then
        then_do (if 5 \<le> length_left lx then matches lx 1 ''alse'' else Inr False)
          (\<lambda>found. if found
             then Inr (False_token, lx\<lparr>src := src lx + 5, length_left := length_left lx + 5\<rparr>)
             else Inr (Error_token, lx))
      else Inr (Error_token, lx))"

subsection \<open>Tokens\<close>

definition get_token :: "'f Env \<Rightarrow> 'f Lexer \<Rightarrow> error + (Json_Token \<times> 'f Lexer)" where
  "get_token E lx0 =
     then_do (skip_space lx0) (\<lambda>(c, lx).
       if c = byte CHR '':'' then Inr (Colon_token, next_byte lx)
       else if c = byte CHR '','' then Inr (Comma_token, next_byte lx)
       else if c = byte CHR ''{'' then Inr (Object_start_token, next_byte lx)
       else if c = byte CHR ''}'' then Inr (Object_stop_token, next_byte lx)
       else if c = byte CHR ''['' then Inr (Array_start_token, next_byte lx)
       else if c = byte CHR '']'' then Inr (Array_stop_token, next_byte lx)
       else if c = byte CHR ''\"'' then get_string lx
       else if c = byte CHR ''-'' \<or> c = byte CHR ''.'' \<or> isdigit c then get_number E c lx
       else get_special c lx)"

section \<open>Values and the node pool\<close>

subsection \<open>The ordered map of a container\<close>

text \<open>
  A \<^verbatim>\<open>JSON *\<close> is \<open>None\<close> (the null pointer) or \<open>Some i\<close>, the address of slot \<open>i\<close> of
  the node pool.

  Modelled from the spec: \<^verbatim>\<open>AvlNode\<close> (\<^verbatim>\<open>AvlNode.h\<close> is not part of these sources), the
  ordered map from a signed integer key to an opaque pointer, with unique keys and
  traversal in ascending key order. A tree is the list of its entries in ascending key
  order; the empty tree is the null \<^verbatim>\<open>AvlNode *\<close>. \<open>insert_key\<close> puts the value under the
  key (in place of a value already there), \<open>find_key\<close> yields the value under a key or
  null, \<open>last_entry\<close> is the entry with the largest key (the empty tree has none), and
  \<open>apply_fn\<close> calls the visitor on every entry in ascending key order, handing it the
  context pointer.
\<close>

type_synonym ptr = "nat option"
type_synonym AvlKey = int
type_synonym AvlNode = "(AvlKey \<times> ptr) list"

fun insert_key :: "AvlNode \<Rightarrow> AvlKey \<Rightarrow> ptr \<Rightarrow> AvlNode" where
  "insert_key [] key v = [(key, v)]"
| "insert_key ((k, w) # tree) key v =
     (if key < k then (key, v) # (k, w) # tree
      else if key = k then (key, v) # tree
      else (k, w) # insert_key tree key v)"

definition find_key :: "AvlNode \<Rightarrow> AvlKey \<Rightarrow> ptr" where
  "find_key tree key = (case map_of tree key of None \<Rightarrow> None | Some v \<Rightarrow> v)"

definition last_entry :: "AvlNode \<Rightarrow> (AvlKey \<times> ptr) option" where
  "last_entry tree = (if tree = [] then None else Some (last tree))"

fun apply_fn ::
  "AvlNode \<Rightarrow> (AvlKey \<Rightarrow> ptr \<Rightarrow> ptr \<Rightarrow> 'a \<Rightarrow> error + 'a) \<Rightarrow> ptr \<Rightarrow> 'a \<Rightarrow> error + 'a" where
  "apply_fn [] visit context acc = Inr acc"
| "apply_fn ((key, v) # tree) visit context acc =
     then_do (visit key v context acc) (apply_fn tree visit context)"

subsection \<open>Nodes\<close>

text \<open>
  A node is its tag together with the member of the union that the tag selects. The
  string length is what \<^verbatim>\<open>get_str_length\<close> reads back: \<^verbatim>\<open>set_str_length\<close> keeps
  \<^verbatim>\<open>length << 4\<close> above the four tag bits. A slot that \<^verbatim>\<open>initialise_json_pool\<close> has
  zero-filled and \<^verbatim>\<open>new_node\<close> has not handed out is \<open>JUnused\<close>.
\<close>

datatype 'f JSON =
    JObject AvlNode
  | JArray AvlNode
  | JString nat uint
  | JUnsigned uint
  | JSigned uint
  | JFloat 'f
  | JBoolean bool
  | JNull
  | JUnused

fun get_tag :: "'f JSON \<Rightarrow> Json_Tag" where
  "get_tag (JObject tree) = Object_t"
| "get_tag (JArray tree) = Array_t"
| "get_tag (JString str n) = String_t"
| "get_tag (JUnsigned u) = Unsigned_t"
| "get_tag (JSigned i) = Signed_t"
| "get_tag (JFloat x) = Float_t"
| "get_tag (JBoolean b) = Boolean_t"
| "get_tag JNull = Null_t"
| "get_tag JUnused = Unused_t"

definition json_type :: "'f JSON \<Rightarrow> Json_Tag" where
  "json_type this = get_tag this"

definition str_length_field :: "uint \<Rightarrow> uint" where
  "str_length_field n = drop_bit 4 (push_bit 4 n)"

text \<open>The keys: \<^verbatim>\<open>- (int)symbol\<close> for a property and \<^verbatim>\<open>(int)index\<close> for an array item.\<close>

definition property_key :: "uint \<Rightarrow> AvlKey" where
  "property_key symbol = sint (- symbol)"

definition array_key :: "uint \<Rightarrow> AvlKey" where
  "array_key index = sint index"

definition retrieve_property :: "'f JSON \<Rightarrow> uint \<Rightarrow> ptr" where
  "retrieve_property this symbol =
     (case this of JObject tree \<Rightarrow> find_key tree (property_key symbol) | _ \<Rightarrow> None)"

definition retrieve_array_item :: "'f JSON \<Rightarrow> uint \<Rightarrow> ptr" where
  "retrieve_array_item this index =
     (case this of JArray tree \<Rightarrow> find_key tree (array_key index) | _ \<Rightarrow> None)"

definition insert_property :: "uint \<Rightarrow> ptr \<Rightarrow> 'f JSON \<Rightarrow> 'f JSON" where
  "insert_property symbol v this =
     (case this of JObject tree \<Rightarrow> JObject (insert_key tree (property_key symbol) v) | _ \<Rightarrow> this)"

definition insert_array_item :: "uint \<Rightarrow> ptr \<Rightarrow> 'f JSON \<Rightarrow> 'f JSON" where
  "insert_array_item index v this =
     (case this of JArray tree \<Rightarrow> JArray (insert_key tree (array_key index) v) | _ \<Rightarrow> this)"

subsection \<open>The pool\<close>

text \<open>
  The three static members. \<open>json_pool\<close> is \<open>None\<close> while the pointer is \<^verbatim>\<open>NULL\<close>, and
  otherwise the content of the slots, by index.
\<close>

record 'f Pool =
  json_pool :: "(nat \<Rightarrow> 'f JSON) option"
  json_pool_length :: uint
  json_pool_size :: uint

definition static_pool :: "'f Pool" where
  "static_pool = \<lparr>json_pool = None, json_pool_length = 0, json_pool_size = 0\<rparr>"

definition initialise_json_pool :: "uint \<Rightarrow> 'f Pool" where
  "initialise_json_pool n =
     \<lparr>json_pool = Some (\<lambda>i. JUnused), json_pool_length = n, json_pool_size = 0\<rparr>"

text \<open>Writing the node behind a non-null pointer, and calling a member through a pointer.\<close>

definition store :: "nat \<Rightarrow> 'f JSON \<Rightarrow> 'f Pool \<Rightarrow> 'f Pool" where
  "store i node P = P\<lparr>json_pool := map_option (\<lambda>slots. slots(i := node)) (json_pool P)\<rparr>"

definition node_at :: "'f Pool \<Rightarrow> ptr \<Rightarrow> error + 'f JSON" where
  "node_at P p =
     (case (p, json_pool P) of (Some i, Some slots) \<Rightarrow> Inr (slots i) | _ \<Rightarrow> Inl NullPointer)"

definition call_on :: "ptr \<Rightarrow> ('f JSON \<Rightarrow> 'f JSON) \<Rightarrow> 'f Pool \<Rightarrow> error + 'f Pool" where
  "call_on p method P =
     (case p of
        None \<Rightarrow> Inl NullPointer
      | Some i \<Rightarrow> then_do (node_at P p) (\<lambda>this. Inr (store i (method this) P)))"

definition new_node :: "'f Pool \<Rightarrow> ptr \<times> 'f Pool" where
  "new_node P =
     (if json_pool P \<noteq> None \<and> json_pool_size P < json_pool_length P
      then (Some (unat (json_pool_size P)),
            store (unat (json_pool_size P)) JNull (P\<lparr>json_pool_size := json_pool_size P + 1\<rparr>))
      else (None, P))"

text \<open>
  The shape shared by the eight constructors: \<^verbatim>\<open>new_node\<close>, and on success the tag and
  the union member are set.
\<close>

definition new_with :: "'f JSON \<Rightarrow> 'f Pool \<Rightarrow> ptr \<times> 'f Pool" where
  "new_with node P =
     (case new_node P of
        (None, P') \<Rightarrow> (None, P')
      | (Some i, P') \<Rightarrow> (Some i, store i node P'))"

definition new_float :: "'f \<Rightarrow> 'f Pool \<Rightarrow> ptr \<times> 'f Pool" where
  "new_float n = new_with (JFloat n)"

definition new_unsigned :: "uint \<Rightarrow> 'f Pool \<Rightarrow> ptr \<times> 'f Pool" where
  "new_unsigned n = new_with (JUnsigned n)"

definition new_signed :: "uint \<Rightarrow> 'f Pool \<Rightarrow> ptr \<times> 'f Pool" where
  "new_signed n = new_with (JSigned n)"

definition new_boolean :: "bool \<Rightarrow> 'f Pool \<Rightarrow> ptr \<times> 'f Pool" where
  "new_boolean v = new_with (JBoolean v)"

definition new_null :: "'f Pool \<Rightarrow> ptr \<times> 'f Pool" where
  "new_null = new_with JNull"

definition new_string :: "nat \<Rightarrow> uint \<Rightarrow> 'f Pool \<Rightarrow> ptr \<times> 'f Pool" where
  "new_string str n = new_with (JString str (str_length_field n))"

definition new_object :: "'f Pool \<Rightarrow> ptr \<times> 'f Pool" where
  "new_object = new_with (JObject [])"

definition new_array :: "'f Pool \<Rightarrow> ptr \<times> 'f Pool" where
  "new_array = new_with (JArray [])"

section \<open>The parser\<close>

text \<open>
  The three mutually recursive functions, and the loops of \<^verbatim>\<open>parse_object\<close> and
  \<^verbatim>\<open>parse_array\<close>, take a budget that is spent on every call and on every turn of a loop; with the budget used up the result is \<open>OutOfFuel\<close>. A result
  is the returned pointer with the lexer and the pool as the call leaves them. The
  diagnostic \<^verbatim>\<open>PRINT\<close>/\<^verbatim>\<open>PRINTLN\<close> calls of the parser have no part in its control flow
  and are left out.

  In \<open>parse_private\<close> the \<^verbatim>\<open>switch\<close> is the \<open>case\<close> over the token: \<open>Some r\<close> is a case
  that returns \<open>r\<close>, \<open>None\<close> would be control leaving the \<^verbatim>\<open>switch\<close> and reaching the
  statements after it.
\<close>

type_synonym 'f parsed = "error + (ptr \<times> 'f Lexer \<times> 'f Pool)"

definition returning :: "ptr \<times> 'f Pool \<Rightarrow> 'f Lexer \<Rightarrow> 'f parsed" where
  "returning r lx = Inr (fst r, lx, snd r)"

function parse_private :: "nat \<Rightarrow> 'f Env \<Rightarrow> 'f Lexer \<Rightarrow> 'f Pool \<Rightarrow> 'f parsed"
  and parse_object :: "nat \<Rightarrow> 'f Env \<Rightarrow> 'f Lexer \<Rightarrow> 'f Pool \<Rightarrow> 'f parsed"
  and parse_object_loop ::
    "nat \<Rightarrow> 'f Env \<Rightarrow> ptr \<Rightarrow> uint \<Rightarrow> Json_Token \<Rightarrow> 'f Lexer \<Rightarrow> 'f Pool \<Rightarrow> 'f parsed"
  and parse_array :: "nat \<Rightarrow> 'f Env \<Rightarrow> 'f Lexer \<Rightarrow> 'f Pool \<Rightarrow> 'f parsed"
  and parse_array_loop ::
    "nat \<Rightarrow> 'f Env \<Rightarrow> ptr \<Rightarrow> uint \<Rightarrow> 'f Lexer \<Rightarrow> 'f Pool \<Rightarrow> 'f parsed"
where
  "parse_private 0 E lx P = Inl OutOfFuel"
| "parse_private (Suc n) E lx P =
     then_do (get_token E lx) (\<lambda>(token, lx1).
       case (case token of
               Object_start_token \<Rightarrow> Some (parse_object n E lx1 P)
             | Array_start_token \<Rightarrow> Some (parse_array n E lx1 P)
             | String_token \<Rightarrow>
                 Some (returning (new_string (token_src lx1) (token_len lx1) P) lx1)
             | Null_token \<Rightarrow> Some (returning (new_null P) lx1)
             | True_token \<Rightarrow> Some (returning (new_boolean True P) lx1)
             | False_token \<Rightarrow> Some (returning (new_boolean False P) lx1)
             | Float_token \<Rightarrow> Some (returning (new_float (float_num lx1) P) lx1)
             | Unsigned_token \<Rightarrow> Some (returning (new_unsigned (unsigned_num lx1) P) lx1)
             | Signed_token \<Rightarrow> Some (returning (new_signed (signed_num lx1) P) lx1)
             | _ \<Rightarrow> Some (Inr (None, lx1, P)))
       of Some r \<Rightarrow> r
        | None \<Rightarrow>
            then_do (get_token E lx1) (\<lambda>(token', lx2).
              if token' \<noteq> Error_token then Inr (None, lx2, P) else Inr (None, lx2, P)))"
| "parse_object 0 E lx P = Inl OutOfFuel"
| "parse_object (Suc n) E lx P =
     (let symcount = JSON_SYMBOL_BASE E;
          (object, P1) = new_object P
      in then_do (get_token E lx) (\<lambda>(token, lx1).
           parse_object_loop n E object symcount token lx1 P1))"
| "parse_object_loop 0 E object symcount token lx P = Inl OutOfFuel"
| "parse_object_loop (Suc n) E object symcount token lx P =
     (if token \<noteq> Error_token then
        if token = Object_stop_token then Inr (object, lx, P)
        else if token \<noteq> String_token then Inr (None, lx, P)
        else
          let (symbol, symcount', table') =
                get_symbol (table lx)
                  (take (unat (token_len lx)) (drop (token_src lx) (buf lx))) symcount
          in then_do (get_token E (lx\<lparr>table := table'\<rparr>)) (\<lambda>(token1, lx1).
               if token1 \<noteq> Colon_token then Inr (None, lx1, P)
               else
                 then_do (parse_private n E lx1 P) (\<lambda>(v, lx2, P2).
                   if v = None then Inr (None, lx2, P2)
                   else
                     then_do (call_on object (insert_property symbol v) P2) (\<lambda>P3.
                     then_do (get_token E lx2) (\<lambda>(token2, lx3).
                       if token2 = Object_stop_token
                       then parse_object_loop n E object symcount' token2 lx3 P3
                       else if token2 \<noteq> Comma_token then Inr (None, lx3, P3)
                       else
                         then_do (get_token E lx3) (\<lambda>(token3, lx4).
                           parse_object_loop n E object symcount' token3 lx4 P3)))))
      else Inr (None, lx, P))"
| "parse_array 0 E lx P = Inl OutOfFuel"
| "parse_array (Suc n) E lx P =
     (let (array, P1) = new_array P
      in then_do (end_of_array lx) (\<lambda>(stop, lx1).
           if stop then Inr (array, lx1, P1)
           else parse_array_loop n E array 0 lx1 P1))"
| "parse_array_loop 0 E array index lx P = Inl OutOfFuel"
| "parse_array_loop (Suc n) E array index lx P =
     then_do (parse_private n E lx P) (\<lambda>(item, lx1, P1).
       if item \<noteq> None then
         then_do (call_on array (insert_array_item index item) P1) (\<lambda>P2.
         then_do (get_token E lx1) (\<lambda>(token, lx2).
           if token = Array_stop_token then Inr (array, lx2, P2)
           else if token \<noteq> Comma_token then Inr (None, lx2, P2)
           else parse_array_loop n E array (index + 1) lx2 P2))
       else Inr (None, lx1, P1))"
  by pat_completeness auto

termination parse_private
  by (relation "measure (case_sum (case_sum fst fst) (case_sum fst (case_sum fst fst)))")
     simp_all

text \<open>
  \<^verbatim>\<open>parse(src, length)\<close>: the lexer is a local object, so every member but the two that
  are assigned and the table starts with whatever \<open>lexer\<close> holds. \<^verbatim>\<open>parse(src)\<close> takes
  the length from \<^verbatim>\<open>strlen\<close>.
\<close>

definition parse :: "nat \<Rightarrow> 'f Env \<Rightarrow> 'f Lexer \<Rightarrow> string \<Rightarrow> uint \<Rightarrow> 'f Pool \<Rightarrow> 'f parsed" where
  "parse n E lexer bytes len P =
     parse_private n E (lexer\<lparr>table := [], buf := bytes, src := 0, length_left := len\<rparr>) P"

definition strlen :: "string \<Rightarrow> nat" where
  "strlen bytes = length (takeWhile (\<lambda>ch. ch \<noteq> CHR 0x00) bytes)"

definition parse_strlen :: "nat \<Rightarrow> 'f Env \<Rightarrow> 'f Lexer \<Rightarrow> string \<Rightarrow> 'f Pool \<Rightarrow> 'f parsed" where
  "parse_strlen n E lexer bytes P = parse n E lexer bytes (of_nat (strlen bytes)) P"

section \<open>The serializer\<close>

text \<open>
  What \<^verbatim>\<open>print\<close> hands to \<^verbatim>\<open>PRINT\<close>, one item per call: a piece of text, an integer, or a
  \<^verbatim>\<open>float\<close>. The bytes of a string node are read from \<open>mem\<close>, the buffer its pointer
  points into.
\<close>

datatype 'f printed = Text string | Number int | Real 'f

fun print_chars :: "string \<Rightarrow> nat \<Rightarrow> nat \<Rightarrow> 'f printed list \<Rightarrow> error + 'f printed list" where
  "print_chars mem name 0 out = Inr out"
| "print_chars mem name (Suc k) out =
     then_do (print_chars mem name k out) (\<lambda>out'.
       if name + k < length mem then Inr (out' @ [Text [mem ! (name + k)]])
       else Inl OutOfBounds)"

definition print_string :: "string \<Rightarrow> nat \<Rightarrow> uint \<Rightarrow> 'f printed list \<Rightarrow> error + 'f printed list" where
  "print_string mem name len out =
     then_do (print_chars mem name (unat len) (out @ [Text [CHR 0x22]]))
       (\<lambda>out'. Inr (out' @ [Text [CHR 0x22]]))"

text \<open>
  The two visitors, over the \<^verbatim>\<open>print\<close> they call on the value. The key of a property is
  negated in \<^verbatim>\<open>int\<close>.
\<close>

definition print_name_value ::
  "(ptr \<Rightarrow> 'f printed list \<Rightarrow> error + 'f printed list) \<Rightarrow>
     AvlKey \<Rightarrow> ptr \<Rightarrow> ptr \<Rightarrow> 'f printed list \<Rightarrow> error + 'f printed list" where
  "print_name_value print_value key v context out =
     then_do
       (print_value v
          (out @ [Text ''  '', Number (sint (- (word_of_int key :: uint))), Text '' : '']))
       (\<lambda>out'. if v \<noteq> context then Inr (out' @ [Text '','']) else Inr out')"

definition print_array_item ::
  "(ptr \<Rightarrow> 'f printed list \<Rightarrow> error + 'f printed list) \<Rightarrow>
     AvlKey \<Rightarrow> ptr \<Rightarrow> ptr \<Rightarrow> 'f printed list \<Rightarrow> error + 'f printed list" where
  "print_array_item print_value key v context out =
     then_do (print_value v out)
       (\<lambda>out'. if v \<noteq> context then Inr (out' @ [Text '','']) else Inr out')"

text \<open>
  The context of a traversal is \<^verbatim>\<open>AvlNode::last(tree)->get_value()\<close>, evaluated before
  the traversal starts. For a non-empty tree that is the value of the entry with the
  largest key. The empty tree has no last entry, and \<^verbatim>\<open>get_value\<close> is then a member call
  through a pointer to no entry: the error \<open>NullPointer\<close>.
\<close>

definition get_value :: "(AvlKey \<times> ptr) option \<Rightarrow> error + ptr" where
  "get_value entry = (case entry of None \<Rightarrow> Inl NullPointer | Some (key, v) \<Rightarrow> Inr v)"

definition last_value :: "AvlNode \<Rightarrow> error + ptr" where
  "last_value tree = get_value (last_entry tree)"

fun print ::
  "nat \<Rightarrow> string \<Rightarrow> (nat \<Rightarrow> 'f JSON) \<Rightarrow> ptr \<Rightarrow> 'f printed list \<Rightarrow> error + 'f printed list"
where
  "print 0 mem slots this out = Inl OutOfFuel"
| "print (Suc n) mem slots None out = Inl NullPointer"
| "print (Suc n) mem slots (Some i) out =
     (case slots i of
        JObject tree \<Rightarrow>
          then_do (last_value tree) (\<lambda>context.
          then_do
            (apply_fn tree (print_name_value (\<lambda>v out'. print n mem slots v out'))
               context (out @ [Text '' { '']))
            (\<lambda>out'. Inr (out' @ [Text '' } ''])))
      | JArray tree \<Rightarrow>
          then_do (last_value tree) (\<lambda>context.
          then_do
            (apply_fn tree (print_array_item (\<lambda>v out'. print n mem slots v out'))
               context (out @ [Text '' [ '']))
            (\<lambda>out'. Inr (out' @ [Text ''] ''])))
      | JString str len \<Rightarrow> print_string mem str len out
      | JUnsigned u \<Rightarrow> Inr (out @ [Number (uint u)])
      | JSigned i \<Rightarrow> Inr (out @ [Number (sint i)])
      | JFloat x \<Rightarrow> Inr (out @ [Real x])
      | JBoolean truth \<Rightarrow> Inr (out @ [Text (if truth then '' true '' else '' false '')])
      | JNull \<Rightarrow> Inr (out @ [Text '' null ''])
      | JUnused \<Rightarrow> Inr out)"

section \<open>Sequences of allocations\<close>

text \<open>
  A call of \<^verbatim>\<open>new_node\<close> or of one of the eight constructors, and a sequence of such calls
  run from a pool; the pointers returned are collected in order.
\<close>

datatype 'f new_call =
    Call_new_node
  | Call_new_float 'f
  | Call_new_unsigned uint
  | Call_new_signed uint
  | Call_new_boolean bool
  | Call_new_null
  | Call_new_string nat uint
  | Call_new_object
  | Call_new_array

fun do_call :: "'f new_call \<Rightarrow> 'f Pool \<Rightarrow> ptr \<times> 'f Pool" where
  "do_call Call_new_node P = new_node P"
| "do_call (Call_new_float x) P = new_float x P"
| "do_call (Call_new_unsigned n) P = new_unsigned n P"
| "do_call (Call_new_signed n) P = new_signed n P"
| "do_call (Call_new_boolean b) P = new_boolean b P"
| "do_call Call_new_null P = new_null P"
| "do_call (Call_new_string str n) P = new_string str n P"
| "do_call Call_new_object P = new_object P"
| "do_call Call_new_array P = new_array P"

fun do_calls :: "'f new_call list \<Rightarrow> 'f Pool \<Rightarrow> ptr list \<times> 'f Pool" where
  "do_calls [] P = ([], P)"
| "do_calls (c # cs) P =
     (let (p, P') = do_call c P; (ps, P'') = do_calls cs P' in (p # ps, P''))"

section \<open>Observing a parse\<close>

text \<open>
  What a caller sees of a result: the node behind the returned pointer (\<open>None\<close> for the
  null pointer), and how far \<^verbatim>\<open>src\<close> has moved.
\<close>

definition returned :: "'f parsed \<Rightarrow> error + 'f JSON option" where
  "returned r =
     then_do r (\<lambda>(p, lx, P).
       case p of
         None \<Rightarrow> Inr None
       | Some i \<Rightarrow> then_do (node_at P p) (\<lambda>node. Inr (Some node)))"

definition consumed :: "'f parsed \<Rightarrow> error + nat" where
  "consumed r = then_do r (\<lambda>(p, lx, P). Inr (src lx))"

text \<open>
  One choice of the parameters, for stating instances: conversions that read a decimal
  numeral, no model of \<^verbatim>\<open>float\<close> values, symbols from 1, and a lexer object whose
  members are all zero before \<^verbatim>\<open>parse\<close> assigns them.
\<close>

fun decimal :: "string \<Rightarrow> uint \<Rightarrow> uint" where
  "decimal [] a = a"
| "decimal (ch # s) a =
     (if isdigit (byte ch) then decimal s (10 * a + of_nat (byte ch - 48)) else a)"

definition some_env :: "unit Env" where
  "some_env =
     \<lparr>sscanf_f = (\<lambda>s. Some ()),
      sscanf_d = (\<lambda>s. case s of [] \<Rightarrow> None | ch # r \<Rightarrow> Some (- decimal r 0)),
      sscanf_u = (\<lambda>s. Some (decimal s 0)),
      JSON_SYMBOL_BASE = 1\<rparr>"

definition some_lexer :: "unit Lexer" where
  "some_lexer =
     \<lparr>table = [], buf = [], src = 0, length_left = 0, token_src = 0, token_len = 0,
      unsigned_num = 0, signed_num = 0, float_num = ()\<rparr>"

section \<open>The switch of parse_private on its own\<close>


section \<open>Printing a node of a pool\<close>

text \<open>
  \<^verbatim>\<open>p->print()\<close> for a pointer into a pool, starting from an empty output. \<open>quoted s\<close> is
  the text \<open>s\<close> between two double quotes.
\<close>

definition print_from ::
  "nat \<Rightarrow> string \<Rightarrow> 'f Pool \<Rightarrow> ptr \<Rightarrow> error + 'f printed list" where
  "print_from n mem P p =
     (case json_pool P of None \<Rightarrow> Inl NullPointer | Some slots \<Rightarrow> print n mem slots p [])"

abbreviation quoted :: "string \<Rightarrow> string" where
  "quoted s \<equiv> CHR 0x22 # s @ [CHR 0x22]"

section \<open>The unread part of the input\<close>

text \<open>
  A lexer is within bounds when the bytes its counter still promises are bytes of the
  buffer; \<open>unread\<close> are those bytes, and \<open>moved k\<close> is the lexer \<open>k\<close> bytes further on.
\<close>

definition in_bounds :: "'f Lexer \<Rightarrow> bool" where
  "in_bounds lx = (src lx + unat (length_left lx) \<le> length (buf lx))"

definition unread :: "'f Lexer \<Rightarrow> string" where
  "unread lx = take (unat (length_left lx)) (drop (src lx) (buf lx))"

definition moved :: "nat \<Rightarrow> 'f Lexer \<Rightarrow> 'f Lexer" where
  "moved k lx = lx\<lparr>length_left := length_left lx - of_nat k, src := src lx + k\<rparr>"

abbreviation blank :: "char \<Rightarrow> bool" where
  "blank ch \<equiv> isspace (byte ch)"

text \<open>A byte \<open>inside\<close> a string: any byte but the double quote.\<close>

abbreviation inside :: "char \<Rightarrow> bool" where
  "inside ch \<equiv> ch \<noteq> CHR 0x22"

section \<open>The members of a container in print\<close>

text \<open>
  The representation invariant of a tree (its entries ascend by key), and the text
  of the members of a container: \<open>body v\<close> is what printing the value \<open>v\<close> emits, and a
  member is followed by a comma unless its value is the context pointer.
\<close>

definition ascending :: "AvlNode \<Rightarrow> bool" where
  "ascending tree = sorted_wrt (<) (map fst tree)"

definition comma_unless :: "ptr \<Rightarrow> ptr \<Rightarrow> 'f printed list" where
  "comma_unless context v = (if v \<noteq> context then [Text '',''] else [])"

definition array_items :: "(ptr \<Rightarrow> 'f printed list) \<Rightarrow> ptr \<Rightarrow> AvlNode \<Rightarrow> 'f printed list" where
  "array_items body context tree =
     concat (map (\<lambda>(key, v). body v @ comma_unless context v) tree)"

definition name_values :: "(ptr \<Rightarrow> 'f printed list) \<Rightarrow> ptr \<Rightarrow> AvlNode \<Rightarrow> 'f printed list" where
  "name_values body context tree =
     concat (map (\<lambda>(key, v).
       [Text ''  '', Number (sint (- (word_of_int key :: uint))), Text '' : ''] @ body v
         @ comma_unless context v) tree)"

section \<open>Operations on the pool\<close>

text \<open>
  The pool invariant: the buffer is set, and the cursor has not passed the capacity.
\<close>

definition pool_ok :: "'f Pool \<Rightarrow> bool" where
  "pool_ok P = (json_pool P \<noteq> None \<and> json_pool_size P \<le> json_pool_length P)"

definition slot :: "'f Pool \<Rightarrow> nat \<Rightarrow> 'f JSON" where
  "slot P i = (case json_pool P of None \<Rightarrow> JUnused | Some slots \<Rightarrow> slots i)"

text \<open>
  \<open>grows P P'\<close>: the pool \<open>P'\<close> is a later state of \<open>P\<close>, with the same capacity and the
  cursor not behind; a parse result \<open>keeps\<close> a pool when the pool it returns, if any, is
  such a later state. An operation on the pool is a constructor call or a call of
  \<open>parse\<close>; a sequence of operations ends at the first error.
\<close>

definition grows :: "'f Pool \<Rightarrow> 'f Pool \<Rightarrow> bool" where
  "grows P P' = (pool_ok P' \<and> json_pool_length P' = json_pool_length P \<and>
     json_pool_size P \<le> json_pool_size P')"

definition keeps :: "'f Pool \<Rightarrow> 'f parsed \<Rightarrow> bool" where
  "keeps P r = (\<forall>p lx' P'. r = Inr (p, lx', P') \<longrightarrow> grows P P')"

datatype 'f pool_op =
    New "'f new_call"
  | Parse nat "'f Env" "'f Lexer" string uint

fun do_op :: "'f pool_op \<Rightarrow> 'f Pool \<Rightarrow> error + 'f Pool" where
  "do_op (New c) P = Inr (snd (do_call c P))"
| "do_op (Parse n E lexer bytes len) P =
     then_do (parse n E lexer bytes len P) (\<lambda>(p, lx, P'). Inr P')"

fun do_ops :: "'f pool_op list \<Rightarrow> 'f Pool \<Rightarrow> error + 'f Pool" where
  "do_ops [] P = Inr P"
| "do_ops (x # xs) P = then_do (do_op x P) (do_ops xs)"

section \<open>Unfolding the definitions on given inputs\<close>

lemmas lexer_eval = get_token_def skip_space.simps peek_byte_def deref_def next_byte_def
  isspace_def isdigit_def get_special_def get_number_def get_string_def string_loop.simps
  digits.simps advance_def end_of_array_def Let_def

lemmas pool_eval = new_node_def new_with_def new_float_def new_unsigned_def new_signed_def
  new_boolean_def new_null_def new_string_def new_object_def new_array_def store_def
  call_on_def node_at_def

lemmas parse_eval = parse_def parse_strlen_def strlen_def returning_def returned_def
  consumed_def get_symbol_def insert_property_def insert_array_item_def

section \<open>Properties of the accessors\<close>

lemma map_of_insert_key_same: "map_of (insert_key tree key v) key = Some v"
  by (induction tree) auto

lemma map_of_insert_key_other:
  "key' \<noteq> key \<Longrightarrow> map_of (insert_key tree key' v) key = map_of tree key"
  by (induction tree) auto

lemma find_key_insert_key_same: "find_key (insert_key tree key v) key = v"
  by (simp add: find_key_def map_of_insert_key_same)

lemma find_key_insert_key_other:
  "key' \<noteq> key \<Longrightarrow> find_key (insert_key tree key' v) key = find_key tree key"
  by (simp add: find_key_def map_of_insert_key_other)

lemma property_key_inject: "property_key s = property_key s' \<longleftrightarrow> s = s'"
  by (auto simp: property_key_def dest: signed_word_eqI)

lemma array_key_inject: "array_key i = array_key i' \<longleftrightarrow> i = i'"
  by (auto simp: array_key_def dest: signed_word_eqI)

lemma sint_uint_32: "sint w = (uint w + 2 ^ 31) mod 2 ^ 32 - 2 ^ 31"
  for w :: uint
  using int_word_sint [of "uint w", where ?'a = 32] by simp

lemma sint_neg_uint_32: "sint (- w) = (2 ^ 31 - uint w) mod 2 ^ 32 - 2 ^ 31"
  for w :: uint
  using int_word_sint [of "- uint w", where ?'a = 32] by simp

lemma array_key_small: "i < 2 ^ 31 \<Longrightarrow> array_key i = uint i"
proof -
  assume "i < 2 ^ 31"
  then have "uint i < 2 ^ 31"
    by (simp add: word_less_alt)
  then show ?thesis
    by (simp add: array_key_def sint_uint_32)
qed

lemma property_key_small: "s \<le> 2 ^ 31 \<Longrightarrow> property_key s = - uint s"
proof -
  assume "s \<le> 2 ^ 31"
  then have le: "uint s \<le> 2147483648"
    by (simp add: word_le_def)
  have nonneg: "0 \<le> uint s"
    by simp
  have "(2147483648 - uint s) mod 4294967296 = 2147483648 - uint s"
    by (rule mod_pos_pos_trivial) (use le nonneg in linarith)+
  then show ?thesis
    by (simp add: property_key_def sint_neg_uint_32)
qed

text \<open>
  C10. On a value whose tag is not \<open>Object_t\<close>, \<open>retrieve_property\<close> returns null and
  \<open>insert_property\<close> leaves the value as it is, also when called through a pointer into
  the pool; likewise \<open>retrieve_array_item\<close> and \<open>insert_array_item\<close> on a value whose tag
  is not \<open>Array_t\<close>.
\<close>

theorem wrong_tag_no_op:
  "(get_tag this \<noteq> Object_t \<longrightarrow>
      retrieve_property this symbol = None \<and> insert_property symbol v this = this \<and>
      (node_at P p = Inr this \<longrightarrow> call_on p (insert_property symbol v) P = Inr P)) \<and>
   (get_tag this \<noteq> Array_t \<longrightarrow>
      retrieve_array_item this index = None \<and> insert_array_item index v this = this \<and>
      (node_at P p = Inr this \<longrightarrow> call_on p (insert_array_item index v) P = Inr P))"
proof -
  have idle: "call_on p f P = Inr P" if "node_at P p = Inr this" "f this = this"
    for f :: "'a JSON \<Rightarrow> 'a JSON"
    using that
    by (cases p; cases "json_pool P") (auto simp: call_on_def node_at_def store_def)
  show ?thesis
    by (cases this)
      (simp_all add: retrieve_property_def insert_property_def retrieve_array_item_def
        insert_array_item_def idle)
qed

theorem wrong_tag_no_op_witness:
  "get_tag (JUnsigned 7 :: unit JSON) \<noteq> Object_t \<and>
   retrieve_property (JUnsigned 7 :: unit JSON) 3 = None \<and>
   insert_property 3 (Some 1) (JUnsigned 7 :: unit JSON) = JUnsigned 7 \<and>
   node_at (snd (new_unsigned 7 (initialise_json_pool 2 :: unit Pool))) (Some 0)
     = Inr (JUnsigned 7) \<and>
   call_on (Some 0) (insert_property 3 (Some 1))
       (snd (new_unsigned 7 (initialise_json_pool 2 :: unit Pool)))
     = Inr (snd (new_unsigned 7 (initialise_json_pool 2))) \<and>
   get_tag (JUnsigned 7 :: unit JSON) \<noteq> Array_t \<and>
   retrieve_array_item (JUnsigned 7 :: unit JSON) 0 = None \<and>
   insert_array_item 0 (Some 1) (JUnsigned 7 :: unit JSON) = JUnsigned 7 \<and>
   call_on (Some 0) (insert_array_item 0 (Some 1))
       (snd (new_unsigned 7 (initialise_json_pool 2 :: unit Pool)))
     = Inr (snd (new_unsigned 7 (initialise_json_pool 2)))"
proof -
  have at: "node_at (snd (new_unsigned 7 (initialise_json_pool 2 :: unit Pool))) (Some 0)
      = Inr (JUnsigned 7)"
    by (simp add: new_unsigned_def new_with_def new_node_def initialise_json_pool_def
        store_def node_at_def)
  show ?thesis
    using at
      wrong_tag_no_op [of "JUnsigned 7 :: unit JSON" 3 "Some 1"
        "snd (new_unsigned 7 (initialise_json_pool 2))" "Some 0" 0]
    by simp
qed

text \<open>
  C8, as the code has it. On a value whose tag is \<open>Object_t\<close>, \<open>insert_property s v\<close>
  stores \<open>v\<close> in the map under \<open>- (int)s\<close>, and \<open>retrieve_property s\<close> then returns \<open>v\<close>, also
  after an insert under another symbol; an array stores an item under \<open>(int)index\<close> in the
  same way. The property key is \<open>- s\<close> and negative for \<open>0 < s \<le> 2^31\<close>, the array key is the
  index and not negative for \<open>index < 2^31\<close>: there the two kinds of key lie on different
  sides of zero.
\<close>

theorem property_and_item_keys:
  "(get_tag this = Object_t \<longrightarrow>
      (\<exists>tree. insert_property s v this = JObject tree \<and> find_key tree (property_key s) = v) \<and>
      retrieve_property (insert_property s v this) s = v \<and>
      (s' \<noteq> s \<longrightarrow> retrieve_property (insert_property s' v' (insert_property s v this)) s = v)) \<and>
   (get_tag this = Array_t \<longrightarrow>
      (\<exists>tree. insert_array_item i v this = JArray tree \<and> find_key tree (array_key i) = v) \<and>
      retrieve_array_item (insert_array_item i v this) i = v \<and>
      (i' \<noteq> i \<longrightarrow>
         retrieve_array_item (insert_array_item i' v' (insert_array_item i v this)) i = v)) \<and>
   (0 < s \<and> s \<le> 2 ^ 31 \<longrightarrow> property_key s = - uint s \<and> property_key s < 0) \<and>
   (i < 2 ^ 31 \<longrightarrow> array_key i = uint i \<and> 0 \<le> array_key i) \<and>
   (0 < s \<and> s \<le> 2 ^ 31 \<and> i < 2 ^ 31 \<longrightarrow> property_key s < array_key i)"
proof -
  have neg: "property_key s = - uint s \<and> property_key s < 0" if "0 < s" "s \<le> 2 ^ 31"
  proof -
    from \<open>0 < s\<close> have "0 < uint s"
      by (simp add: word_less_def)
    with property_key_small [OF \<open>s \<le> 2 ^ 31\<close>] show ?thesis
      by simp
  qed
  have pos: "array_key i = uint i \<and> 0 \<le> array_key i" if "i < 2 ^ 31"
    using array_key_small [OF that] by simp
  have "property_key s < array_key i" if "0 < s" "s \<le> 2 ^ 31" "i < 2 ^ 31"
    using neg [OF that(1,2)] pos [OF that(3)] by linarith
  moreover have "get_tag this = Object_t \<longrightarrow>
      (\<exists>tree. insert_property s v this = JObject tree \<and> find_key tree (property_key s) = v) \<and>
      retrieve_property (insert_property s v this) s = v \<and>
      (s' \<noteq> s \<longrightarrow> retrieve_property (insert_property s' v' (insert_property s v this)) s = v)"
    by (cases this)
      (simp_all add: insert_property_def retrieve_property_def find_key_insert_key_same
        find_key_insert_key_other property_key_inject)
  moreover have "get_tag this = Array_t \<longrightarrow>
      (\<exists>tree. insert_array_item i v this = JArray tree \<and> find_key tree (array_key i) = v) \<and>
      retrieve_array_item (insert_array_item i v this) i = v \<and>
      (i' \<noteq> i \<longrightarrow>
         retrieve_array_item (insert_array_item i' v' (insert_array_item i v this)) i = v)"
    by (cases this)
      (simp_all add: insert_array_item_def retrieve_array_item_def find_key_insert_key_same
        find_key_insert_key_other array_key_inject)
  ultimately show ?thesis
    using neg pos by blast
qed

theorem property_and_item_keys_witness:
  "get_tag (JObject [] :: unit JSON) = Object_t \<and>
   retrieve_property (insert_property 5 (Some 1) (JObject [] :: unit JSON)) 5 = Some 1 \<and>
   retrieve_property
     (insert_property 6 (Some 2) (insert_property 5 (Some 1) (JObject [] :: unit JSON))) 5
     = Some 1 \<and>
   get_tag (JArray [] :: unit JSON) = Array_t \<and>
   retrieve_array_item (insert_array_item 0 (Some 1) (JArray [] :: unit JSON)) 0 = Some 1 \<and>
   retrieve_array_item
     (insert_array_item 1 (Some 2) (insert_array_item 0 (Some 1) (JArray [] :: unit JSON))) 0
     = Some 1 \<and>
   property_key 5 = - 5 \<and> array_key 0 = 0 \<and> property_key 5 < array_key 0"
  using property_and_item_keys
    [of "JObject [] :: unit JSON" 5 "Some 1" 6 "Some 2" 0 1]
    property_and_item_keys
    [of "JArray [] :: unit JSON" 5 "Some 1" 6 "Some 2" 0 1]
  by simp

text \<open>
  C8 as stated fails at the ends of the range: symbol \<open>0\<close> has the key \<open>0\<close>, the key of
  array index \<open>0\<close>, and the index \<open>2^31\<close> has a negative key.
\<close>

theorem keys_not_disjoint:
  "property_key 0 = array_key 0 \<and> array_key 2147483648 < 0 \<and>
   retrieve_property (insert_property 0 (Some 1) (JObject [] :: unit JSON)) 0 = Some 1 \<and>
   insert_property 0 (Some 1) (JObject [] :: unit JSON) = JObject [(0, Some 1)] \<and>
   insert_array_item 0 (Some 1) (JArray [] :: unit JSON) = JArray [(0, Some 1)] \<and>
   insert_array_item 2147483648 (Some 1) (JArray [] :: unit JSON)
     = JArray [(- 2147483648, Some 1)]"
  by (simp add: property_key_def array_key_def insert_property_def insert_array_item_def
      retrieve_property_def find_key_def)

section \<open>The allocation cursor\<close>

lemma unat_succ_below: "a < b \<Longrightarrow> unat (a + 1) = Suc (unat a)"
  for a b :: uint
proof -
  assume "a < b"
  then have "unat a < unat b"
    by (simp add: word_less_nat_alt)
  moreover have "unat b < 2 ^ 32"
    using unsigned_less [of b, where ?'a = nat] by simp
  ultimately have "unat a + unat (1 :: uint) < 2 ^ LENGTH(32)"
    by simp
  then have "unat (a + 1) = unat a + unat (1 :: uint)"
    by (simp only: unat_add_lem)
  then show ?thesis
    by simp
qed

lemma new_node_full:
  "\<not> json_pool_size P < json_pool_length P \<Longrightarrow> new_node P = (None, P)"
  by (simp add: new_node_def)

lemma new_node_free:
  "json_pool P \<noteq> None \<Longrightarrow> json_pool_size P < json_pool_length P \<Longrightarrow>
   new_node P = (Some (unat (json_pool_size P)),
     store (unat (json_pool_size P)) JNull (P\<lparr>json_pool_size := json_pool_size P + 1\<rparr>))"
  by (simp add: new_node_def)

text \<open>One call: it fails and changes nothing, or hands out the slot under the cursor.\<close>

lemma do_call_cases:
  assumes "pool_ok P"
  shows "(\<not> json_pool_size P < json_pool_length P \<and> do_call c P = (None, P)) \<or>
    (json_pool_size P < json_pool_length P \<and>
     (\<exists>P'. do_call c P = (Some (unat (json_pool_size P)), P') \<and> pool_ok P' \<and>
        json_pool_length P' = json_pool_length P \<and>
        json_pool_size P' = json_pool_size P + 1 \<and>
        (\<forall>j. j \<noteq> unat (json_pool_size P) \<longrightarrow> slot P' j = slot P j)))"
proof (cases "json_pool_size P < json_pool_length P")
  case False
  then show ?thesis
    by (cases c)
      (simp_all add: new_node_full new_with_def new_float_def new_unsigned_def new_signed_def
        new_boolean_def new_null_def new_string_def new_object_def new_array_def)
next
  case True
  from assms obtain slots where slots: "json_pool P = Some slots"
    by (auto simp: pool_ok_def)
  from True have "json_pool_size P + 1 \<le> json_pool_length P"
    by (simp add: inc_le)
  with True slots show ?thesis
    by (cases c)
      (simp_all add: new_node_free new_with_def new_float_def new_unsigned_def new_signed_def
        new_boolean_def new_null_def new_string_def new_object_def new_array_def
        store_def pool_ok_def slot_def)
qed

lemma do_calls_run:
  assumes "pool_ok P"
  shows "pool_ok (snd (do_calls cs P)) \<and>
    json_pool_length (snd (do_calls cs P)) = json_pool_length P \<and>
    unat (json_pool_size (snd (do_calls cs P)))
      = min (unat (json_pool_size P) + length cs) (unat (json_pool_length P)) \<and>
    fst (do_calls cs P)
      = map (\<lambda>j. if unat (json_pool_size P) + j < unat (json_pool_length P)
                 then Some (unat (json_pool_size P) + j) else None) [0..<length cs] \<and>
    (\<forall>j. unat (json_pool_length P) \<le> j \<longrightarrow> slot (snd (do_calls cs P)) j = slot P j)"
  using assms
proof (induction cs arbitrary: P)
  case Nil
  then show ?case
    by (simp add: pool_ok_def word_le_nat_alt)
next
  case (Cons c cs)
  from do_call_cases [OF Cons.prems, of c] show ?case
  proof (elim disjE conjE exE)
    assume full: "\<not> json_pool_size P < json_pool_length P" and same: "do_call c P = (None, P)"
    from full Cons.prems have eq: "unat (json_pool_size P) = unat (json_pool_length P)"
      by (simp add: pool_ok_def word_le_nat_alt word_less_nat_alt)
    from Cons.IH [OF Cons.prems] same eq show ?thesis
      by (simp add: split_beta map_upt_Suc del: upt_Suc)
  next
    fix P'
    assume free: "json_pool_size P < json_pool_length P"
      and call: "do_call c P = (Some (unat (json_pool_size P)), P')"
      and ok: "pool_ok P'"
      and len: "json_pool_length P' = json_pool_length P"
      and size: "json_pool_size P' = json_pool_size P + 1"
      and rest: "\<forall>j. j \<noteq> unat (json_pool_size P) \<longrightarrow> slot P' j = slot P j"
    from free have lt: "unat (json_pool_size P) < unat (json_pool_length P)"
      by (simp add: word_less_nat_alt)
    from free size have suc: "unat (json_pool_size P') = Suc (unat (json_pool_size P))"
      by (simp add: unat_succ_below)
    from Cons.IH [OF ok] call len suc lt rest show ?thesis
      by (simp add: split_beta map_upt_Suc del: upt_Suc)
  qed
qed

section \<open>The parser and the cursor\<close>

lemma grows_refl: "pool_ok P \<Longrightarrow> grows P P"
  by (simp add: grows_def)

lemma grows_trans: "grows P P' \<Longrightarrow> grows P' P'' \<Longrightarrow> grows P P''"
  by (auto simp: grows_def)

lemma grows_ok: "grows P P' \<Longrightarrow> pool_ok P'"
  by (simp add: grows_def)

lemma do_call_grows: "pool_ok P \<Longrightarrow> grows P (snd (do_call c P))"
  using do_call_cases [of P c]
  by (auto simp: grows_def word_le_nat_alt word_less_nat_alt unat_succ_below)

lemma new_grows:
  assumes "pool_ok P"
  shows "grows P (snd (new_object P))" "grows P (snd (new_array P))"
    "grows P (snd (new_string s n P))" "grows P (snd (new_null P))"
    "grows P (snd (new_boolean b P))" "grows P (snd (new_float x P))"
    "grows P (snd (new_unsigned u P))" "grows P (snd (new_signed i P))"
  using do_call_grows [OF assms, of Call_new_object] do_call_grows [OF assms, of Call_new_array]
    do_call_grows [OF assms, of "Call_new_string s n"] do_call_grows [OF assms, of Call_new_null]
    do_call_grows [OF assms, of "Call_new_boolean b"] do_call_grows [OF assms, of "Call_new_float x"]
    do_call_grows [OF assms, of "Call_new_unsigned u"] do_call_grows [OF assms, of "Call_new_signed i"]
  by simp_all

lemma call_on_grows: "call_on p f P = Inr P' \<Longrightarrow> pool_ok P \<Longrightarrow> grows P P'"
  by (cases p; cases "json_pool P")
    (auto simp: call_on_def node_at_def store_def grows_def pool_ok_def)

lemma keeps_Inl [simp]: "keeps P (Inl e)"
  by (simp add: keeps_def)

lemma keeps_Inr [simp]: "keeps P (Inr (p, lx, P')) = grows P P'"
  by (simp add: keeps_def)

lemma keeps_returning: "grows P (snd r) \<Longrightarrow> keeps P (returning r lx)"
  by (simp add: returning_def)

lemma keeps_after_token:
  "(\<And>x. m = Inr x \<Longrightarrow> keeps P (f x)) \<Longrightarrow> keeps P (then_do m f)"
  by (cases m) simp_all

lemma keeps_after_parse:
  "keeps P m \<Longrightarrow> (\<And>p lx' P'. m = Inr (p, lx', P') \<Longrightarrow> grows P P' \<Longrightarrow> keeps P' (f (p, lx', P')))
   \<Longrightarrow> keeps P (then_do m f)"
  by (cases m) (auto simp: keeps_def intro: grows_trans)

lemma keeps_from: "grows P P' \<Longrightarrow> keeps P' r \<Longrightarrow> keeps P r"
  by (auto simp: keeps_def intro: grows_trans)

lemma keeps_after_call:
  assumes "pool_ok P"
    and "\<And>P'. call_on p g P = Inr P' \<Longrightarrow> grows P P' \<Longrightarrow> keeps P' (f P')"
  shows "keeps P (then_do (call_on p g P) f)"
proof (cases "call_on p g P")
  case (Inl e)
  then show ?thesis
    by simp
next
  case (Inr P')
  from call_on_grows [OF Inr assms(1)] have g: "grows P P'" .
  from g assms(2) [OF Inr g] have "keeps P (f P')"
    by (rule keeps_from)
  with Inr show ?thesis
    by simp
qed

lemma parse_keeps:
  "pool_ok P \<longrightarrow> keeps P (parse_private n E lx P)"
  "pool_ok P \<longrightarrow> keeps P (parse_object n E lx P)"
  "pool_ok P \<longrightarrow> keeps P (parse_object_loop n E object symcount token lx P)"
  "pool_ok P \<longrightarrow> keeps P (parse_array n E lx P)"
  "pool_ok P \<longrightarrow> keeps P (parse_array_loop n E array index lx P)"
proof (induction n E lx P and n E lx P and n E object symcount token lx P and n E lx P
    and n E array index lx P rule: parse_private_parse_object_parse_object_loop_parse_array_parse_array_loop.induct)
  case (1 E lx P)
  show ?case by simp
next
  case (2 n E lx P)
  show ?case
  proof
    assume ok: "pool_ok P"
    have "keeps P (case (case token of
               Object_start_token \<Rightarrow> Some (parse_object n E lx1 P)
             | Array_start_token \<Rightarrow> Some (parse_array n E lx1 P)
             | String_token \<Rightarrow>
                 Some (returning (new_string (token_src lx1) (token_len lx1) P) lx1)
             | Null_token \<Rightarrow> Some (returning (new_null P) lx1)
             | True_token \<Rightarrow> Some (returning (new_boolean True P) lx1)
             | False_token \<Rightarrow> Some (returning (new_boolean False P) lx1)
             | Float_token \<Rightarrow> Some (returning (new_float (float_num lx1) P) lx1)
             | Unsigned_token \<Rightarrow> Some (returning (new_unsigned (unsigned_num lx1) P) lx1)
             | Signed_token \<Rightarrow> Some (returning (new_signed (signed_num lx1) P) lx1)
             | _ \<Rightarrow> Some (Inr (None, lx1, P)))
       of Some r \<Rightarrow> r
        | None \<Rightarrow>
            then_do (get_token E lx1) (\<lambda>(token', lx2).
              if token' \<noteq> Error_token then Inr (None, lx2, P) else Inr (None, lx2, P)))"
      if "get_token E lx = Inr (token, lx1)" for token lx1
      using that ok "2.IH" [of "(token, lx1)" token lx1] new_grows [OF ok] grows_refl [OF ok]
      by (cases token) (simp_all add: keeps_returning)
    then show "keeps P (parse_private (Suc n) E lx P)"
      by (auto intro!: keeps_after_token)
  qed
next
  case (3 E lx P)
  show ?case by simp
next
  case (4 n E lx P)
  show ?case
  proof
    assume ok: "pool_ok P"
    obtain object P1 where new: "new_object P = (object, P1)"
      by (cases "new_object P")
    with new_grows(1) [OF ok] have g: "grows P P1"
      by simp
    then have ok1: "pool_ok P1"
      by (rule grows_ok)
    have "keeps P1 (parse_object_loop n E object (JSON_SYMBOL_BASE E) token lx1 P1)"
      if "get_token E lx = Inr (token, lx1)" for token lx1
      using "4.IH" [OF refl refl new [symmetric] that refl] ok1 by simp
    then have "keeps P1 (parse_object (Suc n) E lx P)"
      by (auto simp: new intro!: keeps_after_token)
    with g show "keeps P (parse_object (Suc n) E lx P)"
      by (rule keeps_from)
  qed
next
  case (5 E object symcount token lx P)
  show ?case by simp
next
  case (6 n E object symcount token lx P)
  show ?case
  proof
    assume ok: "pool_ok P"
    show "keeps P (parse_object_loop (Suc n) E object symcount token lx P)"
    proof (cases "token \<noteq> Error_token \<and> token \<noteq> Object_stop_token \<and> \<not> token \<noteq> String_token")
      case False
      with ok show ?thesis
        by (auto simp: grows_refl)
    next
      case True
      then have T: "token \<noteq> Error_token" "token \<noteq> Object_stop_token" "\<not> token \<noteq> String_token"
        by simp_all
      obtain symbol symcount' table' where sym:
        "get_symbol (table lx) (take (unat (token_len lx)) (drop (token_src lx) (buf lx)))
           symcount = (symbol, symcount', table')"
        by (rule prod_cases3)
      have inner: "keeps P
          (if token1 \<noteq> Colon_token then Inr (None, lx1, P)
           else
             then_do (parse_private n E lx1 P) (\<lambda>(v, lx2, P2).
               if v = None then Inr (None, lx2, P2)
               else
                 then_do (call_on object (insert_property symbol v) P2) (\<lambda>P3.
                 then_do (get_token E lx2) (\<lambda>(token2, lx3).
                   if token2 = Object_stop_token
                   then parse_object_loop n E object symcount' token2 lx3 P3
                   else if token2 \<noteq> Comma_token then Inr (None, lx3, P3)
                   else
                     then_do (get_token E lx3) (\<lambda>(token3, lx4).
                       parse_object_loop n E object symcount' token3 lx4 P3)))))"
        if t1: "get_token E (lx\<lparr>table := table'\<rparr>) = Inr (token1, lx1)" for token1 lx1
      proof (cases "token1 \<noteq> Colon_token")
        case True
        with ok show ?thesis
          by (simp add: grows_refl)
      next
        case colon: False
        note here = T refl sym [symmetric] refl t1 refl colon
        from "6.IH"(1) [OF here] ok have first: "keeps P (parse_private n E lx1 P)"
          by simp
        have "keeps P2
            (if v = None then Inr (None, lx2, P2)
             else
               then_do (call_on object (insert_property symbol v) P2) (\<lambda>P3.
               then_do (get_token E lx2) (\<lambda>(token2, lx3).
                 if token2 = Object_stop_token
                 then parse_object_loop n E object symcount' token2 lx3 P3
                 else if token2 \<noteq> Comma_token then Inr (None, lx3, P3)
                 else
                   then_do (get_token E lx3) (\<lambda>(token3, lx4).
                     parse_object_loop n E object symcount' token3 lx4 P3))))"
          if pp: "parse_private n E lx1 P = Inr (v, lx2, P2)" and g: "grows P P2" for v lx2 P2
        proof (cases "v = None")
          case True
          with g show ?thesis
            by (simp add: grows_refl grows_ok)
        next
          case nonnull: False
          have "keeps P3
              (if token2 = Object_stop_token
               then parse_object_loop n E object symcount' token2 lx3 P3
               else if token2 \<noteq> Comma_token then Inr (None, lx3, P3)
               else
                 then_do (get_token E lx3) (\<lambda>(token3, lx4).
                   parse_object_loop n E object symcount' token3 lx4 P3))"
            if c: "call_on object (insert_property symbol v) P2 = Inr P3" and g3: "grows P2 P3"
              and t2: "get_token E lx2 = Inr (token2, lx3)" for P3 token2 lx3
          proof -
            note ok3 = grows_ok [OF g3]
            note there = here pp refl refl nonnull c t2 refl
            show ?thesis
            proof (cases "token2 = Object_stop_token")
              case True
              from "6.IH"(2) [OF there True] ok3 True show ?thesis
                by simp
            next
              case other: False
              show ?thesis
              proof (cases "token2 \<noteq> Comma_token")
                case True
                with other ok3 show ?thesis
                  by (simp add: grows_refl)
              next
                case comma: False
                have "keeps P3 (parse_object_loop n E object symcount' token3 lx4 P3)"
                  if t3: "get_token E lx3 = Inr (token3, lx4)" for token3 lx4
                  using "6.IH"(3) [OF there other comma t3 refl] ok3 by simp
                with other comma show ?thesis
                  by (auto intro!: keeps_after_token)
              qed
            qed
          qed
          with grows_ok [OF g] show ?thesis
            by (simp only: nonnull if_False, intro keeps_after_call keeps_after_token) auto
        qed
        with first colon show ?thesis
          by (auto intro!: keeps_after_parse)
      qed
      from T have "parse_object_loop (Suc n) E object symcount token lx P
          = then_do (get_token E (lx\<lparr>table := table'\<rparr>)) (\<lambda>(token1, lx1).
          if token1 \<noteq> Colon_token then Inr (None, lx1, P)
           else
             then_do (parse_private n E lx1 P) (\<lambda>(v, lx2, P2).
               if v = None then Inr (None, lx2, P2)
               else
                 then_do (call_on object (insert_property symbol v) P2) (\<lambda>P3.
                 then_do (get_token E lx2) (\<lambda>(token2, lx3).
                   if token2 = Object_stop_token
                   then parse_object_loop n E object symcount' token2 lx3 P3
                   else if token2 \<noteq> Comma_token then Inr (None, lx3, P3)
                   else
                     then_do (get_token E lx3) (\<lambda>(token3, lx4).
                       parse_object_loop n E object symcount' token3 lx4 P3)))))"
        by (simp add: sym)
      with inner show ?thesis
        by (auto intro!: keeps_after_token)
    qed
  qed
next
  case (7 E lx P)
  show ?case by simp
next
  case (8 n E lx P)
  show ?case
  proof
    assume ok: "pool_ok P"
    obtain array P1 where new: "new_array P = (array, P1)"
      by (cases "new_array P")
    with new_grows(2) [OF ok] have g: "grows P P1"
      by simp
    then have ok1: "pool_ok P1"
      by (rule grows_ok)
    have "keeps P1 (if stop then Inr (array, lx1, P1) else parse_array_loop n E array 0 lx1 P1)"
      if e: "end_of_array lx = Inr (stop, lx1)" for stop lx1
    proof (cases stop)
      case True
      with ok1 show ?thesis
        by (simp add: grows_refl)
    next
      case False
      with "8.IH" [OF refl new [symmetric] e refl False] ok1 show ?thesis
        by simp
    qed
    then have "keeps P1 (parse_array (Suc n) E lx P)"
      by (auto simp: new intro!: keeps_after_token)
    with g show "keeps P (parse_array (Suc n) E lx P)"
      by (rule keeps_from)
  qed
next
  case (9 E array index lx P)
  show ?case by simp
next
  case (10 n E array index lx P)
  show ?case
  proof
    assume ok: "pool_ok P"
    from "10.IH"(1) ok have first: "keeps P (parse_private n E lx P)"
      by simp
    have "keeps P1 (if item \<noteq> None then
         then_do (call_on array (insert_array_item index item) P1) (\<lambda>P2.
         then_do (get_token E lx1) (\<lambda>(token, lx2).
           if token = Array_stop_token then Inr (array, lx2, P2)
           else if token \<noteq> Comma_token then Inr (None, lx2, P2)
           else parse_array_loop n E array (index + 1) lx2 P2))
       else Inr (None, lx1, P1))"
      if pp: "parse_private n E lx P = Inr (item, lx1, P1)" and g: "grows P P1" for item lx1 P1
    proof (cases "item = None")
      case True
      with g show ?thesis
        by (simp add: grows_refl grows_ok)
    next
      case False
      have "keeps P2 (if token = Array_stop_token then Inr (array, lx2, P2)
           else if token \<noteq> Comma_token then Inr (None, lx2, P2)
           else parse_array_loop n E array (index + 1) lx2 P2)"
        if c: "call_on array (insert_array_item index item) P1 = Inr P2" and g2: "grows P1 P2"
          and t: "get_token E lx1 = Inr (token, lx2)" for P2 token lx2
        using "10.IH"(2) [OF pp refl refl False c t refl] grows_ok [OF g2]
        by (simp add: grows_refl)
      with grows_ok [OF g] show ?thesis
        by (simp only: False not_False_eq_True if_True,
            intro keeps_after_call keeps_after_token) auto
    qed
    with first show "keeps P (parse_array_loop (Suc n) E array index lx P)"
      by (auto intro!: keeps_after_parse)
  qed
qed


lemma do_op_grows: "pool_ok P \<Longrightarrow> do_op x P = Inr P' \<Longrightarrow> grows P P'"
proof (cases x)
  case (New c)
  assume "pool_ok P" "do_op x P = Inr P'"
  with New do_call_grows [of P c] show ?thesis
    by auto
next
  case (Parse n E lexer bytes len)
  assume ok: "pool_ok P" and res: "do_op x P = Inr P'"
  from parse_keeps(1) [of P n E "lexer\<lparr>table := [], buf := bytes, src := 0, length_left := len\<rparr>"] ok
  have "keeps P (parse n E lexer bytes len P)"
    by (simp add: parse_def)
  with res Parse show ?thesis
    by (cases "parse n E lexer bytes len P") (auto simp: keeps_def)
qed

lemma do_ops_grows: "pool_ok P \<Longrightarrow> do_ops xs P = Inr P' \<Longrightarrow> grows P P'"
proof (induction xs arbitrary: P)
  case Nil
  then show ?case
    by (simp add: grows_refl)
next
  case (Cons x xs)
  from Cons.prems(2) obtain P1 where one: "do_op x P = Inr P1" and rest: "do_ops xs P1 = Inr P'"
    by (cases "do_op x P") simp_all
  from do_op_grows [OF Cons.prems(1) one] have g: "grows P P1" .
  from Cons.IH [OF grows_ok [OF g] rest] g show ?case
    by (blast intro: grows_trans)
qed

lemma ops_from_initialised:
  assumes "do_ops ops (initialise_json_pool K) = Inr P1" "do_ops later P1 = Inr P2"
  shows "json_pool_size P1 \<le> json_pool_size P2 \<and> json_pool_size P2 \<le> K \<and>
    json_pool_length P2 = K"
proof -
  have ok: "pool_ok (initialise_json_pool K :: 'a Pool)"
    by (simp add: pool_ok_def initialise_json_pool_def)
  from do_ops_grows [OF ok assms(1)] have g1: "grows (initialise_json_pool K) P1" .
  from do_ops_grows [OF grows_ok [OF g1] assms(2)] have g2: "grows P1 P2" .
  from g1 g2 show ?thesis
    by (auto simp: grows_def pool_ok_def initialise_json_pool_def)
qed


text \<open>
  C6. From a pool initialised with capacity \<open>K\<close>, after any sequence of calls of
  \<open>new_node\<close> and the constructors: the cursor is the number of calls made, capped at \<open>K\<close>,
  so it never exceeds \<open>K\<close> and is at least what it was after any shorter prefix of the
  sequence; call number \<open>j\<close> (from 0) returns slot \<open>j\<close> while \<open>j < K\<close> and null from then on;
  and every slot from index \<open>K\<close> on is as \<open>initialise_json_pool\<close> left it. With calls of
  \<open>parse\<close> among the operations as well, the cursor after a longer sequence is still at
  least the cursor after a shorter one and at most \<open>K\<close>.
\<close>

theorem pool_cursor:
  "unat (json_pool_size (snd (do_calls calls (initialise_json_pool K :: 'f Pool))))
     = min (length calls) (unat K) \<and>
   json_pool_size (snd (do_calls calls (initialise_json_pool K))) \<le> K \<and>
   json_pool_length (snd (do_calls calls (initialise_json_pool K))) = K \<and>
   json_pool_size (snd (do_calls (take m calls) (initialise_json_pool K)))
     \<le> json_pool_size (snd (do_calls calls (initialise_json_pool K))) \<and>
   fst (do_calls calls (initialise_json_pool K))
     = map (\<lambda>j. if j < unat K then Some j else None) [0..<length calls] \<and>
   (\<forall>j. unat K \<le> j \<longrightarrow>
      slot (snd (do_calls calls (initialise_json_pool K))) j = JUnused) \<and>
   (do_ops ops (initialise_json_pool K :: 'f Pool) = Inr P1 \<and> do_ops later P1 = Inr P2 \<longrightarrow>
      json_pool_size P1 \<le> json_pool_size P2 \<and> json_pool_size P2 \<le> K \<and>
      json_pool_length P2 = K)"
proof -
  let ?P0 = "initialise_json_pool K :: 'f Pool"
  have ok: "pool_ok ?P0"
    by (simp add: pool_ok_def initialise_json_pool_def)
  have start: "json_pool_size ?P0 = 0" "json_pool_length ?P0 = K" "slot ?P0 j = JUnused" for j
    by (simp_all add: initialise_json_pool_def slot_def)
  note run = do_calls_run [OF ok, unfolded start, simplified]
  have size: "unat (json_pool_size (snd (do_calls cs ?P0))) = min (length cs) (unat K)" for cs
    using run [of cs] by simp
  have "unat (json_pool_size (snd (do_calls (take m calls) ?P0)))
      \<le> unat (json_pool_size (snd (do_calls calls ?P0)))"
    unfolding size by (simp add: min_def)
  then have mono: "json_pool_size (snd (do_calls (take m calls) ?P0))
      \<le> json_pool_size (snd (do_calls calls ?P0))"
    by (simp add: word_le_nat_alt)
  have "unat (json_pool_size (snd (do_calls calls ?P0))) \<le> unat K"
    unfolding size by simp
  then have le: "json_pool_size (snd (do_calls calls ?P0)) \<le> K"
    by (simp add: word_le_nat_alt)
  have mixed: "json_pool_size P1 \<le> json_pool_size P2 \<and> json_pool_size P2 \<le> K \<and>
      json_pool_length P2 = K"
    if "do_ops ops ?P0 = Inr P1" "do_ops later P1 = Inr P2"
    using that by (rule ops_from_initialised)
  from size [of calls] le mono run [of calls] mixed show ?thesis
    by simp
qed

theorem pool_cursor_witness:
  "fst (do_calls [Call_new_object, Call_new_unsigned 5, Call_new_null]
          (initialise_json_pool 2 :: unit Pool)) = [Some 0, Some 1, None] \<and>
   json_pool_size (snd (do_calls [Call_new_object, Call_new_unsigned 5, Call_new_null]
          (initialise_json_pool 2 :: unit Pool))) = 2 \<and>
   json_pool_size (snd (do_calls (take 1 [Call_new_object, Call_new_unsigned 5, Call_new_null])
          (initialise_json_pool 2 :: unit Pool)))
     \<le> json_pool_size (snd (do_calls [Call_new_object, Call_new_unsigned 5, Call_new_null]
          (initialise_json_pool 2 :: unit Pool))) \<and>
   slot (snd (do_calls [Call_new_object, Call_new_unsigned 5, Call_new_null]
          (initialise_json_pool 2 :: unit Pool))) 2 = JUnused \<and>
   do_ops [New Call_new_object] (initialise_json_pool 2 :: unit Pool)
     = Inr \<lparr>json_pool = Some ((\<lambda>i. JUnused)(0 := JObject [])),
            json_pool_length = 2, json_pool_size = 1\<rparr> \<and>
   do_ops [Parse (Suc (Suc 0)) some_env some_lexer ''[]'' 2, New Call_new_null]
       \<lparr>json_pool = Some ((\<lambda>i. JUnused)(0 := JObject [])),
        json_pool_length = 2, json_pool_size = 1\<rparr>
     = Inr \<lparr>json_pool = Some ((\<lambda>i. JUnused)(0 := JObject [], 1 := JArray [])),
            json_pool_length = 2, json_pool_size = 2\<rparr> \<and>
   (1 :: uint) \<le> 2"
proof -
  have first: "do_ops [New Call_new_object] (initialise_json_pool 2 :: unit Pool)
      = Inr \<lparr>json_pool = Some ((\<lambda>i. JUnused)(0 := JObject [])),
             json_pool_length = 2, json_pool_size = 1\<rparr>"
    by (simp add: pool_eval initialise_json_pool_def)
  have second: "do_ops [Parse (Suc (Suc 0)) some_env some_lexer ''[]'' 2, New Call_new_null]
        \<lparr>json_pool = Some ((\<lambda>i. JUnused :: unit JSON)(0 := JObject [])),
         json_pool_length = 2, json_pool_size = 1\<rparr>
      = Inr \<lparr>json_pool = Some ((\<lambda>i. JUnused)(0 := JObject [], 1 := JArray [])),
             json_pool_length = 2, json_pool_size = 2\<rparr>"
    by (simp add: pool_eval lexer_eval parse_eval)
  from first second
    pool_cursor
      [of "[Call_new_object, Call_new_unsigned 5, Call_new_null :: unit new_call]" 2 1
        "[New Call_new_object]"
        "\<lparr>json_pool = Some ((\<lambda>i. JUnused)(0 := JObject [])),
          json_pool_length = 2, json_pool_size = 1\<rparr>"
        "[Parse (Suc (Suc 0)) some_env some_lexer ''[]'' 2, New Call_new_null]"
        "\<lparr>json_pool = Some ((\<lambda>i. JUnused)(0 := JObject [], 1 := JArray [])),
          json_pool_length = 2, json_pool_size = 2\<rparr>"]
  show ?thesis
    by (simp add: new_node_def new_with_def new_unsigned_def new_null_def new_object_def
        store_def initialise_json_pool_def slot_def)
qed



section \<open>Parsing particular inputs\<close>

lemma rejects_object_without_value:
  "returned (parse (Suc (Suc (Suc (Suc n)))) E lexer ((''{'' @ quoted ''a'' @ '':}'') @ rest) 6 P)
     = Inr None"
  by (simp add: lexer_eval pool_eval parse_eval)

lemma rejects_open_array:
  "returned (parse (Suc (Suc (Suc (Suc (Suc n))))) E lexer (''[1,2'' @ rest) 4 P) = Inr None"
  by (cases "json_pool P") (auto simp add: lexer_eval pool_eval parse_eval)

lemma rejects_short_literal:
  "returned (parse (Suc n) E lexer (''tru'' @ rest) 3 P) = Inr None"
  by (simp add: lexer_eval pool_eval parse_eval)

lemma accepts_two_points:
  "json_pool P \<noteq> None \<Longrightarrow> json_pool_size P < json_pool_length P \<Longrightarrow>
   returned (parse (Suc n) E lexer (''1.2.3'' @ rest) 5 P)
     = Inr (Some (JFloat (case sscanf_f E (''1.2.3'' @ rest) of
                            None \<Rightarrow> float_num lexer | Some x \<Rightarrow> x))) \<and>
   consumed (parse (Suc n) E lexer (''1.2.3'' @ rest) 5 P) = Inr 3"
  by (auto simp add: lexer_eval pool_eval parse_eval split: option.splits)

text \<open>
  C2, as the code has it. With the declared length covering exactly the text, \<^verbatim>\<open>{"a":}\<close>,
  \<^verbatim>\<open>[1,2\<close> and \<^verbatim>\<open>tru\<close> are rejected: \<open>parse\<close> returns null, whatever the pool, the
  conversions and the bytes behind the text are. \<^verbatim>\<open>1.2.3\<close> is not rejected: the lexer
  takes \<^verbatim>\<open>1.2\<close> as one float token, and with a free slot in the pool \<open>parse\<close> returns a
  \<open>Float\<close> node, \<^verbatim>\<open>src\<close> resting at offset 3 in front of the unread \<^verbatim>\<open>.3\<close>.
\<close>

theorem malformed_input:
  "returned (parse (Suc (Suc (Suc (Suc n)))) E lexer ((''{'' @ quoted ''a'' @ '':}'') @ rest) 6 P)
     = Inr None \<and>
   returned (parse (Suc (Suc (Suc (Suc (Suc n))))) E lexer (''[1,2'' @ rest) 4 P) = Inr None \<and>
   returned (parse (Suc n) E lexer (''tru'' @ rest) 3 P) = Inr None \<and>
   (json_pool P \<noteq> None \<and> json_pool_size P < json_pool_length P \<longrightarrow>
      returned (parse (Suc n) E lexer (''1.2.3'' @ rest) 5 P)
        = Inr (Some (JFloat (case sscanf_f E (''1.2.3'' @ rest) of
                               None \<Rightarrow> float_num lexer | Some x \<Rightarrow> x))) \<and>
      consumed (parse (Suc n) E lexer (''1.2.3'' @ rest) 5 P) = Inr 3)"
  using rejects_object_without_value [of n E lexer rest P] rejects_open_array [of n E lexer rest P]
    rejects_short_literal [of n E lexer rest P] accepts_two_points [of P n E lexer rest]
  by blast

theorem malformed_input_witness:
  "json_pool (initialise_json_pool 4 :: unit Pool) \<noteq> None \<and>
   json_pool_size (initialise_json_pool 4 :: unit Pool)
     < json_pool_length (initialise_json_pool 4 :: unit Pool) \<and>
   returned (parse (Suc (Suc (Suc (Suc 0)))) some_env some_lexer
       ((''{'' @ quoted ''a'' @ '':}'') @ []) 6 (initialise_json_pool 4)) = Inr None \<and>
   returned (parse (Suc (Suc (Suc (Suc (Suc 0))))) some_env some_lexer (''[1,2'' @ []) 4
       (initialise_json_pool 4)) = Inr None \<and>
   returned (parse (Suc 0) some_env some_lexer (''tru'' @ []) 3 (initialise_json_pool 4))
     = Inr None \<and>
   returned (parse (Suc 0) some_env some_lexer (''1.2.3'' @ []) 5 (initialise_json_pool 4))
     = Inr (Some (JFloat ())) \<and>
   consumed (parse (Suc 0) some_env some_lexer (''1.2.3'' @ []) 5 (initialise_json_pool 4))
     = Inr 3"
proof -
  have free: "json_pool (initialise_json_pool 4 :: unit Pool) \<noteq> None \<and>
      json_pool_size (initialise_json_pool 4 :: unit Pool)
        < json_pool_length (initialise_json_pool 4 :: unit Pool)"
    by (simp add: initialise_json_pool_def)
  with malformed_input [of 0 some_env some_lexer "[]" "initialise_json_pool 4"]
  show ?thesis
    by simp
qed

text \<open>
  C2 as stated fails for \<^verbatim>\<open>1.2.3\<close>: from a pool with one slot, \<open>parse\<close> returns a \<open>Float\<close>
  node, not null.
\<close>

theorem two_points_not_rejected:
  "returned (parse (Suc 0) some_env some_lexer ''1.2.3'' 5 (initialise_json_pool 1))
     = Inr (Some (JFloat ()))"
  by (simp add: lexer_eval pool_eval parse_eval some_env_def some_lexer_def
      initialise_json_pool_def)

lemma parses_empty_object:
  "json_pool P \<noteq> None \<Longrightarrow> json_pool_size P < json_pool_length P \<Longrightarrow>
   returned (parse_strlen (Suc (Suc (Suc n))) E lexer (''{}'' @ CHR 0x00 # rest) P)
     = Inr (Some (JObject [])) \<and>
   then_do (parse_strlen (Suc (Suc (Suc n))) E lexer (''{}'' @ CHR 0x00 # rest) P)
       (\<lambda>(p, lx, P'). print_from (Suc m) mem P' p)
     = Inl NullPointer"
  by (auto simp add: lexer_eval pool_eval parse_eval print_from_def last_value_def
      get_value_def last_entry_def)

lemma parses_empty_array:
  "json_pool P \<noteq> None \<Longrightarrow> json_pool_size P < json_pool_length P \<Longrightarrow>
   returned (parse_strlen (Suc (Suc n)) E lexer (''[]'' @ CHR 0x00 # rest) P)
     = Inr (Some (JArray [])) \<and>
   then_do (parse_strlen (Suc (Suc n)) E lexer (''[]'' @ CHR 0x00 # rest) P)
       (\<lambda>(p, lx, P'). print_from (Suc m) mem P' p)
     = Inl NullPointer"
  by (auto simp add: lexer_eval pool_eval parse_eval print_from_def last_value_def
      get_value_def last_entry_def)

lemma print_empty_map:
  "slots i = JObject [] \<or> slots i = JArray [] \<Longrightarrow>
   print (Suc m) mem slots (Some i) out = Inl NullPointer"
  by (auto simp add: last_value_def get_value_def last_entry_def)

text \<open>
  C5 evaluated. With a free slot in the pool, \<^verbatim>\<open>parse("{}")\<close> returns a node with tag
  \<open>Object_t\<close> and an empty map, and \<^verbatim>\<open>parse("[]")\<close> a node with tag \<open>Array_t\<close> and an empty
  map. \<open>print\<close> on a container with an empty map does not emit the two brackets: the
  context of the traversal, \<^verbatim>\<open>AvlNode::last(tree)->get_value()\<close>, is a member call on the
  last entry of a map that has none, and \<open>print\<close> fails there, for the two parsed values as
  for every node whose map is empty.
\<close>

theorem empty_container_print_fails:
  "(json_pool P \<noteq> None \<and> json_pool_size P < json_pool_length P \<longrightarrow>
      returned (parse_strlen (Suc (Suc (Suc n))) E lexer (''{}'' @ CHR 0x00 # rest) P)
        = Inr (Some (JObject [])) \<and>
      get_tag (JObject [] :: 'f JSON) = Object_t \<and>
      then_do (parse_strlen (Suc (Suc (Suc n))) E lexer (''{}'' @ CHR 0x00 # rest) P)
          (\<lambda>(p, lx, P'). print_from (Suc m) mem P' p)
        = Inl NullPointer \<and>
      returned (parse_strlen (Suc (Suc n)) E lexer (''[]'' @ CHR 0x00 # rest) P)
        = Inr (Some (JArray [])) \<and>
      get_tag (JArray [] :: 'f JSON) = Array_t \<and>
      then_do (parse_strlen (Suc (Suc n)) E lexer (''[]'' @ CHR 0x00 # rest) P)
          (\<lambda>(p, lx, P'). print_from (Suc m) mem P' p)
        = Inl NullPointer) \<and>
   (slots i = JObject [] \<or> slots i = JArray [] \<longrightarrow>
      print (Suc m) mem slots (Some i) out = Inl NullPointer)"
  using parses_empty_object [of P n E lexer rest m mem]
    parses_empty_array [of P n E lexer rest m mem]
    print_empty_map [of slots i m mem out]
  by simp

theorem empty_container_print_fails_witness:
  "json_pool (initialise_json_pool 1 :: unit Pool) \<noteq> None \<and>
   json_pool_size (initialise_json_pool 1 :: unit Pool)
     < json_pool_length (initialise_json_pool 1 :: unit Pool) \<and>
   returned (parse_strlen (Suc (Suc (Suc 0))) some_env some_lexer (''{}'' @ CHR 0x00 # [])
       (initialise_json_pool 1)) = Inr (Some (JObject [])) \<and>
   then_do (parse_strlen (Suc (Suc (Suc 0))) some_env some_lexer (''{}'' @ CHR 0x00 # [])
       (initialise_json_pool 1)) (\<lambda>(p, lx, P'). print_from (Suc 0) [] P' p)
     = Inl NullPointer \<and>
   returned (parse_strlen (Suc (Suc 0)) some_env some_lexer (''[]'' @ CHR 0x00 # [])
       (initialise_json_pool 1)) = Inr (Some (JArray [])) \<and>
   then_do (parse_strlen (Suc (Suc 0)) some_env some_lexer (''[]'' @ CHR 0x00 # [])
       (initialise_json_pool 1)) (\<lambda>(p, lx, P'). print_from (Suc 0) [] P' p)
     = Inl NullPointer \<and>
   print (Suc 0) [] ((\<lambda>i. JUnused :: unit JSON)(0 := JArray [])) (Some 0) []
     = Inl NullPointer"
proof -
  have free: "json_pool (initialise_json_pool 1 :: unit Pool) \<noteq> None \<and>
      json_pool_size (initialise_json_pool 1 :: unit Pool)
        < json_pool_length (initialise_json_pool 1 :: unit Pool)"
    by (simp add: initialise_json_pool_def)
  with empty_container_print_fails [of "initialise_json_pool 1" 0 some_env some_lexer "[]" 0
      "[]" "(\<lambda>i. JUnused :: unit JSON)(0 := JArray [])" 0 "[]"]
  show ?thesis
    by simp
qed

section \<open>The lexer on the unread input\<close>

lemma length_unread: "in_bounds lx \<Longrightarrow> length (unread lx) = unat (length_left lx)"
  by (simp add: in_bounds_def unread_def)

lemma unread_Nil: "in_bounds lx \<Longrightarrow> unread lx = [] \<Longrightarrow> length_left lx = 0"
  using length_unread [of lx] by (simp add: unat_eq_0)

lemma moved_0 [simp]: "moved 0 lx = lx"
  by (simp add: moved_def)

lemma moved_moved: "moved k (moved j lx) = moved (j + k) lx"
  by (simp add: moved_def)

lemma unread_Cons:
  assumes "in_bounds lx" "unread lx = b # bs"
  shows "0 < length_left lx" "src lx < length (buf lx)" "buf lx ! src lx = b"
    "next_byte lx = moved 1 lx" "unread (moved 1 lx) = bs" "in_bounds (moved 1 lx)"
proof -
  from assms have len: "unat (length_left lx) = Suc (length bs)"
    using length_unread [of lx] by simp
  then show pos: "0 < length_left lx"
    by (simp add: word_greater_zero_iff unat_eq_0 [symmetric])
  from len assms(1) show inside: "src lx < length (buf lx)"
    by (simp add: in_bounds_def)
  from pos have dec: "unat (length_left lx - 1) = length bs"
    using len by (simp add: unat_minus_one word_greater_zero_iff)
  from assms(2) len inside show "buf lx ! src lx = b"
    by (simp add: unread_def take_Suc hd_drop_conv_nth)
  from pos show "next_byte lx = moved 1 lx"
    by (simp add: next_byte_def moved_def)
  from assms(2) len inside dec show "unread (moved 1 lx) = bs"
    by (simp add: unread_def moved_def take_Suc drop_Suc tl_drop)
  from assms(1) len dec show "in_bounds (moved 1 lx)"
    by (simp add: in_bounds_def moved_def)
qed

lemma parses_nested_empty_array:
  assumes "json_pool P \<noteq> None" "json_pool_size P < json_pool_length P"
    "json_pool_size P + 1 < json_pool_length P"
  shows "returned (parse_strlen (Suc (Suc (Suc (Suc (Suc n))))) E lexer
           (''[[],1]'' @ CHR 0x00 # rest) P)
      = Inr (Some (JArray [(0, Some (Suc (unat (json_pool_size P))))]))"
    and "then_do (parse_strlen (Suc (Suc (Suc (Suc (Suc n))))) E lexer
           (''[[],1]'' @ CHR 0x00 # rest) P)
         (\<lambda>(p, lx, P'). node_at P' (Some (Suc (unat (json_pool_size P)))))
      = Inr (JArray [])"
    and "consumed (parse_strlen (Suc (Suc (Suc (Suc (Suc n))))) E lexer
           (''[[],1]'' @ CHR 0x00 # rest) P) = Inr 3"
proof -
  from assms(1) obtain slots where slots: "json_pool P = Some slots"
    by auto
  note step = unat_succ_below [OF assms(2)]
  show "returned (parse_strlen (Suc (Suc (Suc (Suc (Suc n))))) E lexer
           (''[[],1]'' @ CHR 0x00 # rest) P)
      = Inr (Some (JArray [(0, Some (Suc (unat (json_pool_size P))))]))"
    using assms(2,3) slots step
    by (simp add: lexer_eval pool_eval parse_eval array_key_def)
  show "then_do (parse_strlen (Suc (Suc (Suc (Suc (Suc n))))) E lexer
           (''[[],1]'' @ CHR 0x00 # rest) P)
         (\<lambda>(p, lx, P'). node_at P' (Some (Suc (unat (json_pool_size P)))))
      = Inr (JArray [])"
    using assms(2,3) slots step
    by (simp add: lexer_eval pool_eval parse_eval array_key_def)
  show "consumed (parse_strlen (Suc (Suc (Suc (Suc (Suc n))))) E lexer
           (''[[],1]'' @ CHR 0x00 # rest) P) = Inr 3"
    using assms(2,3) slots step
    by (simp add: lexer_eval pool_eval parse_eval array_key_def)
qed

lemma byte_is_bracket: "byte a = 93 \<longleftrightarrow> a = CHR '']''"
proof -
  have "byte a = byte CHR '']'' \<longleftrightarrow> a = CHR '']''"
    by (rule of_char_eq_iff)
  then show ?thesis
    by simp
qed

lemma length_unread_le: "length (unread lx) \<le> unat (length_left lx)"
  by (simp add: unread_def)

lemma unread_head:
  assumes "unread lx = b # bs"
  shows "0 < length_left lx" "src lx < length (buf lx)" "buf lx ! src lx = b"
    "next_byte lx = moved 1 lx" "unread (moved 1 lx) = bs"
    "unat (length_left (moved 1 lx)) = unat (length_left lx) - 1"
proof -
  have ne: "unat (length_left lx) \<noteq> 0"
  proof
    assume "unat (length_left lx) = 0"
    with assms show False
      by (simp add: unread_def)
  qed
  then show pos: "0 < length_left lx"
    by (simp add: word_greater_zero_iff unat_eq_0 [symmetric])
  from assms show inside: "src lx < length (buf lx)"
    by (cases "src lx < length (buf lx)") (auto simp add: unread_def)
  from pos have dec: "unat (length_left lx - 1) = unat (length_left lx) - 1"
    by (simp add: unat_minus_one word_greater_zero_iff)
  from ne obtain m where m: "unat (length_left lx) = Suc m"
    by (cases "unat (length_left lx)") auto
  from assms m inside show "buf lx ! src lx = b"
    by (simp add: unread_def take_Suc hd_drop_conv_nth)
  from pos show "next_byte lx = moved 1 lx"
    by (simp add: next_byte_def moved_def)
  from assms m inside dec show "unread (moved 1 lx) = bs"
    by (simp add: unread_def moved_def take_Suc drop_Suc tl_drop)
  from dec show "unat (length_left (moved 1 lx)) = unat (length_left lx) - 1"
    by (simp add: moved_def)
qed

lemma skip_space_any:
  "skip_space lx =
     (if dropWhile blank (unread lx) = [] \<and> length (unread lx) < unat (length_left lx)
      then Inl OutOfBounds
      else Inr (case dropWhile blank (unread lx) of [] \<Rightarrow> 256 | ch # rest \<Rightarrow> byte ch,
                moved (length (takeWhile blank (unread lx))) lx))"
proof (induction "unread lx" arbitrary: lx)
  case Nil
  show ?case
  proof (cases "length_left lx = 0")
    case True
    with Nil [symmetric] show ?thesis
      by (simp add: skip_space.simps [of lx] peek_byte_def isspace_def)
  next
    case False
    then have pos: "0 < unat (length_left lx)"
      by (simp add: unat_gt_0)
    with Nil [symmetric] have "length (buf lx) \<le> src lx"
      by (auto simp add: unread_def)
    with False pos Nil [symmetric] show ?thesis
      by (simp add: skip_space.simps [of lx] peek_byte_def deref_def word_greater_zero_iff)
  qed
next
  case (Cons b bs)
  note facts = unread_head [OF Cons.hyps(2) [symmetric]]
  from facts have peek: "peek_byte lx = Inr (byte b)"
    by (simp add: peek_byte_def deref_def)
  from Cons.hyps(2) [symmetric] length_unread_le [of lx]
  have len: "length bs < unat (length_left lx) - 1 \<longleftrightarrow> length (unread lx) < unat (length_left lx)"
    by auto
  show ?case
  proof (cases "blank b")
    case True
    from Cons.hyps(1) [of "moved 1 lx"] facts(5,6)
    have "skip_space (moved 1 lx) =
       (if dropWhile blank bs = [] \<and> length bs < unat (length_left lx) - 1
        then Inl OutOfBounds
        else Inr (case dropWhile blank bs of [] \<Rightarrow> 256 | ch # rest \<Rightarrow> byte ch,
                  moved (length (takeWhile blank bs)) (moved 1 lx)))"
      by simp
    with True peek facts(4) Cons.hyps(2) [symmetric] len show ?thesis
      by (simp add: skip_space.simps [of lx] moved_moved)
  next
    case False
    with peek Cons.hyps(2) [symmetric] show ?thesis
      by (simp add: skip_space.simps [of lx])
  qed
qed

lemma unread_moved_drop:
  "k \<le> length (unread lx) \<Longrightarrow> unread (moved k lx) = drop k (unread lx)"
proof (induction k arbitrary: lx)
  case 0
  show ?case by simp
next
  case (Suc k)
  then obtain b bs where u: "unread lx = b # bs"
    by (cases "unread lx") auto
  note facts = unread_head [OF u]
  from Suc.prems u facts(5) have "k \<le> length (unread (moved 1 lx))"
    by simp
  from Suc.IH [OF this] facts(5) have "unread (moved k (moved 1 lx)) = drop k bs"
    by simp
  with u show ?case
    by (simp add: moved_moved)
qed

lemma unread_after_blanks:
  "unread (moved (length (takeWhile f (unread lx))) lx) = dropWhile f (unread lx)"
  by (simp add: unread_moved_drop length_takeWhile_le dropWhile_eq_drop)

lemma skip_to:
  assumes "unread lx = ws @ ch # rest" "\<forall>w \<in> set ws. blank w" "\<not> blank ch"
  shows "skip_space lx = Inr (byte ch, moved (length ws) lx)"
    and "unread (moved (length ws) lx) = ch # rest"
    and "next_byte (moved (length ws) lx) = moved (Suc (length ws)) lx"
    and "unread (moved (Suc (length ws)) lx) = rest"
proof -
  from assms have tw: "takeWhile blank (unread lx) = ws"
    and dw: "dropWhile blank (unread lx) = ch # rest"
    by (simp_all add: takeWhile_append2 dropWhile_append2)
  show "skip_space lx = Inr (byte ch, moved (length ws) lx)"
    by (simp add: skip_space_any [of lx] tw dw)
  from unread_after_blanks [of blank lx] show at: "unread (moved (length ws) lx) = ch # rest"
    by (simp add: tw dw)
  from unread_head(4,5) [OF at]
  show "next_byte (moved (length ws) lx) = moved (Suc (length ws)) lx"
    and "unread (moved (Suc (length ws)) lx) = rest"
    by (simp_all add: moved_moved)
qed


lemma then_do_assoc: "then_do (then_do a f) g = then_do a (\<lambda>x. then_do (f x) g)"
  by (cases a) simp_all

lemma get_token_open_bracket:
  assumes "unread lx = ws @ CHR ''['' # rest" "\<forall>w \<in> set ws. blank w"
  shows "get_token E lx = Inr (Array_start_token, moved (Suc (length ws)) lx)"
  using skip_to(1,3) [OF assms] by (simp add: get_token_def isspace_def)

lemma get_token_close_bracket:
  assumes "unread lx = ws @ CHR '']'' # rest" "\<forall>w \<in> set ws. blank w"
  shows "get_token E lx = Inr (Array_stop_token, moved (Suc (length ws)) lx)"
  using skip_to(1,3) [OF assms] by (simp add: get_token_def isspace_def)

lemma get_token_colon:
  assumes "unread lx = ws @ CHR '':'' # rest" "\<forall>w \<in> set ws. blank w"
  shows "get_token E lx = Inr (Colon_token, moved (Suc (length ws)) lx)"
  using skip_to(1,3) [OF assms] by (simp add: get_token_def isspace_def)

lemma end_of_array_close_bracket:
  assumes "unread lx = ws @ CHR '']'' # rest" "\<forall>w \<in> set ws. blank w"
  shows "end_of_array lx = Inr (True, moved (length ws) lx)"
  using skip_to(1) [OF assms] by (simp add: end_of_array_def isspace_def)

lemma new_array_free:
  assumes "json_pool P \<noteq> None" "json_pool_size P < json_pool_length P"
  shows "fst (new_array P) = Some (unat (json_pool_size P))"
    and "node_at (snd (new_array P)) (fst (new_array P)) = Inr (JArray [])"
  using assms by (auto simp add: pool_eval)

lemma parse_private_empty_array:
  assumes u: "unread lx = ws1 @ CHR ''['' # ws2 @ CHR '']'' # rest"
    and b1: "\<forall>w \<in> set ws1. blank w" and b2: "\<forall>w \<in> set ws2. blank w"
  shows "parse_private (Suc (Suc n)) E lx P
      = Inr (fst (new_array P), moved (Suc (length ws1 + length ws2)) lx, snd (new_array P))"
    and "unread (moved (Suc (length ws1 + length ws2)) lx) = CHR '']'' # rest"
proof -
  have "\<not> blank CHR ''[''"
    by (simp add: isspace_def)
  note opened = skip_to(4) [OF u b1 this]
  have "\<not> blank CHR '']''"
    by (simp add: isspace_def)
  note closed = skip_to(2) [OF opened b2 this]
  show "parse_private (Suc (Suc n)) E lx P
      = Inr (fst (new_array P), moved (Suc (length ws1 + length ws2)) lx, snd (new_array P))"
    by (simp add: get_token_open_bracket [OF u b1] end_of_array_close_bracket [OF opened b2]
        moved_moved split_beta)
  from closed show "unread (moved (Suc (length ws1 + length ws2)) lx) = CHR '']'' # rest"
    by (simp add: moved_moved)
qed

lemma empty_array_closes_array:
  assumes u: "unread lx = ws1 @ CHR ''['' # ws2 @ CHR '']'' # rest"
    and b1: "\<forall>w \<in> set ws1. blank w" and b2: "\<forall>w \<in> set ws2. blank w"
    and free: "json_pool P \<noteq> None" "json_pool_size P < json_pool_length P"
  shows "parse_array_loop (Suc (Suc (Suc n))) E array index lx P
      = then_do
          (call_on array (insert_array_item index (fst (new_array P))) (snd (new_array P)))
          (\<lambda>P2. Inr (array, moved (length ws1 + length ws2 + 2) lx, P2))"
    and "unread (moved (length ws1 + length ws2 + 2) lx) = rest"
proof -
  note inner = parse_private_empty_array [OF u b1 b2]
  have tok: "get_token E (moved (Suc (length ws1 + length ws2)) lx)
      = Inr (Array_stop_token, moved (length ws1 + length ws2 + 2) lx)"
    using get_token_close_bracket [of "moved (Suc (length ws1 + length ws2)) lx" "[]" rest E]
      inner(2) by (simp add: moved_moved)
  show "parse_array_loop (Suc (Suc (Suc n))) E array index lx P
      = then_do
          (call_on array (insert_array_item index (fst (new_array P))) (snd (new_array P)))
          (\<lambda>P2. Inr (array, moved (length ws1 + length ws2 + 2) lx, P2))"
    using new_array_free(1) [OF free]
    by (simp add: inner(1) [of n E P] tok then_do_assoc del: parse_private.simps cong del: then_do_cong)
  have "\<not> blank CHR '']''"
    by (simp add: isspace_def)
  from skip_to(4) [of "moved (Suc (length ws1 + length ws2)) lx" "[]" "CHR '']''" rest] inner(2) this
  show "unread (moved (length ws1 + length ws2 + 2) lx) = rest"
    by (simp add: moved_moved)
qed

lemma empty_array_ends_object:
  assumes u: "unread lx = ws0 @ CHR '':'' # ws1 @ CHR ''['' # ws2 @ CHR '']'' # rest"
    and b0: "\<forall>w \<in> set ws0. blank w"
    and b1: "\<forall>w \<in> set ws1. blank w" and b2: "\<forall>w \<in> set ws2. blank w"
    and free: "json_pool P \<noteq> None" "json_pool_size P < json_pool_length P"
  shows "then_do (parse_object_loop (Suc (Suc (Suc n))) E object symcount String_token lx P)
           (\<lambda>(p, lx', P'). Inr (p, unread lx'))
      = then_do
          (call_on object
             (insert_property
                (fst (get_symbol (table lx)
                   (take (unat (token_len lx)) (drop (token_src lx) (buf lx))) symcount))
                (fst (new_array P)))
             (snd (new_array P)))
          (\<lambda>P3. Inr (None, rest))"
proof -
  obtain symbol symcount' table' where sym:
    "get_symbol (table lx) (take (unat (token_len lx)) (drop (token_src lx) (buf lx))) symcount
       = (symbol, symcount', table')"
    by (cases "get_symbol (table lx)
       (take (unat (token_len lx)) (drop (token_src lx) (buf lx))) symcount") auto
  let ?lx = "lx\<lparr>table := table'\<rparr>"
  from u have u': "unread ?lx = ws0 @ CHR '':'' # ws1 @ CHR ''['' # ws2 @ CHR '']'' # rest"
    by (simp add: unread_def)
  have colon: "get_token E ?lx = Inr (Colon_token, moved (Suc (length ws0)) ?lx)"
    by (rule get_token_colon [OF u' b0])
  have "\<not> blank CHR '':''"
    by (simp add: isspace_def)
  note after = skip_to(4) [OF u' b0 this]
  note inner = parse_private_empty_array [OF after b1 b2]
  let ?lx2 = "moved (Suc (length ws1 + length ws2)) (moved (Suc (length ws0)) ?lx)"
  have tok: "get_token E ?lx2 = Inr (Array_stop_token, moved (Suc 0) ?lx2)"
    using get_token_close_bracket [of ?lx2 "[]" rest E] inner(2) by simp
  have "\<not> blank CHR '']''"
    by (simp add: isspace_def)
  from skip_to(4) [of ?lx2 "[]" "CHR '']''" rest] inner(2) this
  have rest: "unread (moved (Suc 0) ?lx2) = rest"
    by simp
  show ?thesis
    using new_array_free(1) [OF free]
    by (simp add: sym colon inner(1) [of n E P] tok rest
        then_do_assoc del: parse_private.simps cong del: then_do_cong)
qed

lemma rejects_empty_array_in_object:
  "returned (parse_strlen (Suc (Suc (Suc (Suc (Suc n))))) E lexer
      ((''{'' @ quoted ''a'' @ '':[],'' @ quoted ''b'' @ '':1}'') @ CHR 0x00 # rest) P)
     = Inr None"
  by (cases "json_pool P") (auto simp add: lexer_eval pool_eval parse_eval)

lemma stops_behind_empty_array_in_object:
  "consumed (parse_strlen (Suc (Suc (Suc (Suc (Suc 0))))) some_env some_lexer
      ((''{'' @ quoted ''a'' @ '':[],'' @ quoted ''b'' @ '':1}'') @ CHR 0x00 # [])
      (initialise_json_pool 4))
     = Inr 7"
  by (simp add: lexer_eval pool_eval parse_eval some_env_def some_lexer_def
      initialise_json_pool_def property_key_def)


text \<open>
  C9, as the code has it. \<open>end_of_array\<close> skips the whitespace in front and nothing else:
  it answers whether the first unread byte after the whitespace is \<^verbatim>\<open>]\<close>, and that byte is
  still unread afterwards (it fails only when whitespace is all that is left and the
  counter promises more bytes than the buffer holds). When the enclosing container is an
  array, at whatever index its loop stands, and an empty array comes next, the \<^verbatim>\<open>]\<close> of the
  empty array is the token the enclosing loop reads after the item: the loop stores the
  empty array under that index and returns the enclosing array, and what follows the \<^verbatim>\<open>]\<close>
  stays unread. When the enclosing container is an object and the value of a property is
  an empty array, the loop of the object reads that \<^verbatim>\<open>]\<close> after the value and returns
  null. So \<^verbatim>\<open>[[],1]\<close> yields an array whose map holds one entry, at index 0, the empty
  array, with \<^verbatim>\<open>src\<close> at offset 3 in front of \<^verbatim>\<open>,1]\<close>, and \<^verbatim>\<open>{"a":[],"b":1}\<close> yields null,
  whatever the pool.
\<close>

theorem empty_array_in_container:
  "end_of_array lx
     = (if dropWhile blank (unread lx) = [] \<and> length (unread lx) < unat (length_left lx)
        then Inl OutOfBounds
        else Inr (case dropWhile blank (unread lx) of [] \<Rightarrow> False | ch # bs \<Rightarrow> ch = CHR '']'',
                  moved (length (takeWhile blank (unread lx))) lx)) \<and>
   unread (moved (length (takeWhile blank (unread lx))) lx) = dropWhile blank (unread lx) \<and>
   (unread la = ws1 @ CHR ''['' # ws2 @ CHR '']'' # rest \<and>
    (\<forall>w \<in> set ws1. blank w) \<and> (\<forall>w \<in> set ws2. blank w) \<and>
    json_pool P \<noteq> None \<and> json_pool_size P < json_pool_length P \<longrightarrow>
      parse_array_loop (Suc (Suc (Suc n))) E array index la P
        = then_do
            (call_on array (insert_array_item index (fst (new_array P))) (snd (new_array P)))
            (\<lambda>P2. Inr (array, moved (length ws1 + length ws2 + 2) la, P2)) \<and>
      fst (new_array P) = Some (unat (json_pool_size P)) \<and>
      node_at (snd (new_array P)) (fst (new_array P)) = Inr (JArray []) \<and>
      unread (moved (length ws1 + length ws2 + 2) la) = rest) \<and>
   (unread lo = ws3 @ CHR '':'' # ws4 @ CHR ''['' # ws5 @ CHR '']'' # tail \<and>
    (\<forall>w \<in> set ws3. blank w) \<and> (\<forall>w \<in> set ws4. blank w) \<and> (\<forall>w \<in> set ws5. blank w) \<and>
    json_pool R \<noteq> None \<and> json_pool_size R < json_pool_length R \<longrightarrow>
      then_do (parse_object_loop (Suc (Suc (Suc n))) E object symcount String_token lo R)
          (\<lambda>(p, lx', P'). Inr (p, unread lx'))
        = then_do
            (call_on object
               (insert_property
                  (fst (get_symbol (table lo)
                     (take (unat (token_len lo)) (drop (token_src lo) (buf lo))) symcount))
                  (fst (new_array R)))
               (snd (new_array R)))
            (\<lambda>P3. Inr (None, tail))) \<and>
   (json_pool Q \<noteq> None \<and> json_pool_size Q < json_pool_length Q \<and>
    json_pool_size Q + 1 < json_pool_length Q \<longrightarrow>
      returned (parse_strlen (Suc (Suc (Suc (Suc (Suc n))))) E lexer
          (''[[],1]'' @ CHR 0x00 # more_bytes) Q)
        = Inr (Some (JArray [(0, Some (Suc (unat (json_pool_size Q))))])) \<and>
      then_do (parse_strlen (Suc (Suc (Suc (Suc (Suc n))))) E lexer
          (''[[],1]'' @ CHR 0x00 # more_bytes) Q)
          (\<lambda>(p, lx, P'). node_at P' (Some (Suc (unat (json_pool_size Q)))))
        = Inr (JArray []) \<and>
      consumed (parse_strlen (Suc (Suc (Suc (Suc (Suc n))))) E lexer
          (''[[],1]'' @ CHR 0x00 # more_bytes) Q) = Inr 3) \<and>
   returned (parse_strlen (Suc (Suc (Suc (Suc (Suc n))))) E lexer
      ((''{'' @ quoted ''a'' @ '':[],'' @ quoted ''b'' @ '':1}'') @ CHR 0x00 # more_bytes) Q)
     = Inr None"
proof -
  have stop: "end_of_array lx
     = (if dropWhile blank (unread lx) = [] \<and> length (unread lx) < unat (length_left lx)
        then Inl OutOfBounds
        else Inr (case dropWhile blank (unread lx) of [] \<Rightarrow> False | ch # bs \<Rightarrow> ch = CHR '']'',
                  moved (length (takeWhile blank (unread lx))) lx))"
  proof (cases "dropWhile blank (unread lx)")
    case Nil
    show ?thesis
      unfolding end_of_array_def skip_space_any [of lx] Nil by simp
  next
    case (Cons b bs)
    show ?thesis
      unfolding end_of_array_def skip_space_any [of lx] Cons
      by (simp add: byte_is_bracket)
  qed
  have arr: "parse_array_loop (Suc (Suc (Suc n))) E array index la P
        = then_do
            (call_on array (insert_array_item index (fst (new_array P))) (snd (new_array P)))
            (\<lambda>P2. Inr (array, moved (length ws1 + length ws2 + 2) la, P2)) \<and>
      fst (new_array P) = Some (unat (json_pool_size P)) \<and>
      node_at (snd (new_array P)) (fst (new_array P)) = Inr (JArray []) \<and>
      unread (moved (length ws1 + length ws2 + 2) la) = rest"
    if "unread la = ws1 @ CHR ''['' # ws2 @ CHR '']'' # rest"
      "\<forall>w \<in> set ws1. blank w" "\<forall>w \<in> set ws2. blank w"
      "json_pool P \<noteq> None" "json_pool_size P < json_pool_length P"
  proof (intro conjI)
    show "parse_array_loop (Suc (Suc (Suc n))) E array index la P
        = then_do
            (call_on array (insert_array_item index (fst (new_array P))) (snd (new_array P)))
            (\<lambda>P2. Inr (array, moved (length ws1 + length ws2 + 2) la, P2))"
      by (rule empty_array_closes_array(1) [OF that])
    show "fst (new_array P) = Some (unat (json_pool_size P))"
      by (rule new_array_free(1) [OF that(4,5)])
    show "node_at (snd (new_array P)) (fst (new_array P)) = Inr (JArray [])"
      by (rule new_array_free(2) [OF that(4,5)])
    show "unread (moved (length ws1 + length ws2 + 2) la) = rest"
      by (rule empty_array_closes_array(2) [OF that])
  qed
  have obj: "then_do (parse_object_loop (Suc (Suc (Suc n))) E object symcount String_token lo R)
          (\<lambda>(p, lx', P'). Inr (p, unread lx'))
        = then_do
            (call_on object
               (insert_property
                  (fst (get_symbol (table lo)
                     (take (unat (token_len lo)) (drop (token_src lo) (buf lo))) symcount))
                  (fst (new_array R)))
               (snd (new_array R)))
            (\<lambda>P3. Inr (None, tail))"
    if "unread lo = ws3 @ CHR '':'' # ws4 @ CHR ''['' # ws5 @ CHR '']'' # tail"
      "\<forall>w \<in> set ws3. blank w" "\<forall>w \<in> set ws4. blank w" "\<forall>w \<in> set ws5. blank w"
      "json_pool R \<noteq> None" "json_pool_size R < json_pool_length R"
    by (rule empty_array_ends_object [OF that])
  have nested: "returned (parse_strlen (Suc (Suc (Suc (Suc (Suc n))))) E lexer
          (''[[],1]'' @ CHR 0x00 # more_bytes) Q)
        = Inr (Some (JArray [(0, Some (Suc (unat (json_pool_size Q))))])) \<and>
      then_do (parse_strlen (Suc (Suc (Suc (Suc (Suc n))))) E lexer
          (''[[],1]'' @ CHR 0x00 # more_bytes) Q)
          (\<lambda>(p, lx, P'). node_at P' (Some (Suc (unat (json_pool_size Q)))))
        = Inr (JArray []) \<and>
      consumed (parse_strlen (Suc (Suc (Suc (Suc (Suc n))))) E lexer
          (''[[],1]'' @ CHR 0x00 # more_bytes) Q) = Inr 3"
    if "json_pool Q \<noteq> None" "json_pool_size Q < json_pool_length Q"
      "json_pool_size Q + 1 < json_pool_length Q"
    using parses_nested_empty_array [OF that] by simp
  have in_object: "returned (parse_strlen (Suc (Suc (Suc (Suc (Suc n))))) E lexer
      ((''{'' @ quoted ''a'' @ '':[],'' @ quoted ''b'' @ '':1}'') @ CHR 0x00 # more_bytes) Q)
     = Inr None"
    by (rule rejects_empty_array_in_object)
  from stop unread_after_blanks [of blank lx] arr obj nested in_object
  show ?thesis
    by blast
qed


theorem empty_array_in_container_witness:
  "end_of_array (some_lexer\<lparr>buf := '' ],'', length_left := 3\<rparr>)
     = Inr (True, some_lexer\<lparr>buf := '' ],'', src := 1, length_left := 2\<rparr>) \<and>
   unread (some_lexer\<lparr>buf := '' ],'', src := 1, length_left := 2\<rparr>) = ''],'' \<and>
   returned (parse_array_loop (Suc (Suc (Suc 0))) some_env (Some 0) 0
       (some_lexer\<lparr>buf := ''[[],1]'', src := 1, length_left := 5\<rparr>)
       (snd (new_array (initialise_json_pool 2))))
     = Inr (Some (JArray [(0, Some 1)])) \<and>
   consumed (parse_array_loop (Suc (Suc (Suc 0))) some_env (Some 0) 0
       (some_lexer\<lparr>buf := ''[[],1]'', src := 1, length_left := 5\<rparr>)
       (snd (new_array (initialise_json_pool 2))))
     = Inr 3 \<and>
   then_do
     (parse_object_loop (Suc (Suc (Suc 0))) some_env (Some 0) 1 String_token
        (some_lexer\<lparr>buf := ''{'' @ quoted ''a'' @ '':[],'' @ quoted ''b'' @ '':1}'', src := 4,
           length_left := 10, token_src := 2, token_len := 1\<rparr>)
        (snd (new_object (initialise_json_pool 2))))
     (\<lambda>(p, lx', P'). Inr (p, unread lx'))
     = Inr (None, '','' @ quoted ''b'' @ '':1}'') \<and>
   returned (parse_strlen (Suc (Suc (Suc (Suc (Suc 0))))) some_env some_lexer
       (''[[],1]'' @ CHR 0x00 # []) (initialise_json_pool 2))
     = Inr (Some (JArray [(0, Some 1)])) \<and>
   then_do (parse_strlen (Suc (Suc (Suc (Suc (Suc 0))))) some_env some_lexer
       (''[[],1]'' @ CHR 0x00 # []) (initialise_json_pool 2))
       (\<lambda>(p, lx, P'). node_at P' (Some 1))
     = Inr (JArray []) \<and>
   consumed (parse_strlen (Suc (Suc (Suc (Suc (Suc 0))))) some_env some_lexer
       (''[[],1]'' @ CHR 0x00 # []) (initialise_json_pool 2)) = Inr 3 \<and>
   returned (parse_strlen (Suc (Suc (Suc (Suc (Suc 0))))) some_env some_lexer
      ((''{'' @ quoted ''a'' @ '':[],'' @ quoted ''b'' @ '':1}'') @ CHR 0x00 # [])
      (initialise_json_pool 2))
     = Inr None"
proof -
  let ?lx = "some_lexer\<lparr>buf := '' ],'', length_left := 3\<rparr>"
  let ?la = "some_lexer\<lparr>buf := ''[[],1]'', src := 1, length_left := 5\<rparr>"
  let ?lo = "some_lexer\<lparr>buf := ''{'' @ quoted ''a'' @ '':[],'' @ quoted ''b'' @ '':1}'', src := 4,
      length_left := 10, token_src := 2, token_len := 1\<rparr>"
  let ?P = "snd (new_array (initialise_json_pool 2)) :: unit Pool"
  let ?R = "snd (new_object (initialise_json_pool 2)) :: unit Pool"
  let ?Q = "initialise_json_pool 2 :: unit Pool"
  have rd: "unread ?lx = '' ],''"
    by (simp add: unread_def some_lexer_def)
  have mv: "moved (Suc 0) ?lx = some_lexer\<lparr>buf := '' ],'', src := 1, length_left := 2\<rparr>"
    by (simp add: moved_def some_lexer_def)
  have a: "unread ?la = [] @ CHR ''['' # [] @ CHR '']'' # '',1]'' \<and>
      (\<forall>w \<in> set []. blank w) \<and> (\<forall>w \<in> set []. blank w) \<and>
      json_pool ?P \<noteq> None \<and> json_pool_size ?P < json_pool_length ?P"
    by (simp add: unread_def some_lexer_def pool_eval initialise_json_pool_def)
  have b: "unread ?lo = [] @ CHR '':'' # [] @ CHR ''['' # [] @ CHR '']'' # ('','' @ quoted ''b'' @ '':1}'') \<and>
      (\<forall>w \<in> set []. blank w) \<and> (\<forall>w \<in> set []. blank w) \<and> (\<forall>w \<in> set []. blank w) \<and>
      json_pool ?R \<noteq> None \<and> json_pool_size ?R < json_pool_length ?R"
    by (simp add: unread_def some_lexer_def pool_eval initialise_json_pool_def)
  have c: "json_pool ?Q \<noteq> None \<and> json_pool_size ?Q < json_pool_length ?Q \<and>
      json_pool_size ?Q + 1 < json_pool_length ?Q"
    by (simp add: initialise_json_pool_def)
  have size: "json_pool_size ?Q = 0"
    by (simp add: initialise_json_pool_def)
  note inst = empty_array_in_container [where lx = ?lx and la = ?la and ?ws1.0 = "[]"
      and ?ws2.0 = "[]" and rest = "'',1]''" and P = ?P and n = 0 and E = some_env
      and array = "Some 0" and index = 0 and lo = ?lo and ?ws3.0 = "[]" and ?ws4.0 = "[]"
      and ?ws5.0 = "[]" and tail = "'','' @ quoted ''b'' @ '':1}''" and R = ?R
      and object = "Some 0" and symcount = 1 and Q = ?Q and lexer = some_lexer
      and more_bytes = "[]"]
  note i1 = inst [THEN conjunct1]
  note i2 = inst [THEN conjunct2, THEN conjunct1]
  note i3 = inst [THEN conjunct2, THEN conjunct2, THEN conjunct1, THEN mp, OF a]
  note i4 = inst [THEN conjunct2, THEN conjunct2, THEN conjunct2, THEN conjunct1, THEN mp, OF b]
  note i5 = inst [THEN conjunct2, THEN conjunct2, THEN conjunct2, THEN conjunct2,
      THEN conjunct1, THEN mp, OF c]
  note i6 = inst [THEN conjunct2, THEN conjunct2, THEN conjunct2, THEN conjunct2,
      THEN conjunct2]
  have w1: "end_of_array ?lx
      = Inr (True, some_lexer\<lparr>buf := '' ],'', src := 1, length_left := 2\<rparr>)"
    unfolding i1 by (simp add: rd mv isspace_def)
  have w2: "unread (some_lexer\<lparr>buf := '' ],'', src := 1, length_left := 2\<rparr>) = ''],''"
    using i2 by (simp add: rd mv isspace_def)
  have w3: "returned (parse_array_loop (Suc (Suc (Suc 0))) some_env (Some 0) 0 ?la ?P)
      = Inr (Some (JArray [(0, Some 1)]))"
    unfolding i3 [THEN conjunct1]
    by (simp add: returned_def pool_eval initialise_json_pool_def insert_array_item_def
        array_key_def)
  have w4: "consumed (parse_array_loop (Suc (Suc (Suc 0))) some_env (Some 0) 0 ?la ?P) = Inr 3"
    unfolding i3 [THEN conjunct1]
    by (simp add: consumed_def pool_eval initialise_json_pool_def moved_def)
  have w5: "then_do
      (parse_object_loop (Suc (Suc (Suc 0))) some_env (Some 0) 1 String_token ?lo ?R)
      (\<lambda>(p, lx', P'). Inr (p, unread lx'))
      = Inr (None, '','' @ quoted ''b'' @ '':1}'')"
    unfolding i4 by (simp add: pool_eval initialise_json_pool_def)
  from w1 w2 w3 w4 w5 i5 i6 show ?thesis
    by (simp add: size del: parse_array_loop.simps parse_object_loop.simps
        cong del: then_do_cong)
qed

text \<open>
  C9 as stated fails for an enclosing object: in \<^verbatim>\<open>{"a":[],"b":1}\<close> the \<^verbatim>\<open>]\<close> is not taken
  as the closing delimiter of the object; \<open>parse\<close> returns null with \<^verbatim>\<open>src\<close> at offset 7,
  behind the \<^verbatim>\<open>]\<close>, and so it does for \<^verbatim>\<open>{"a":[]}\<close>, where the empty array is the last
  member.
\<close>

theorem empty_array_in_object_rejected:
  "returned (parse_strlen (Suc (Suc (Suc (Suc (Suc 0))))) some_env some_lexer
      ((''{'' @ quoted ''a'' @ '':[],'' @ quoted ''b'' @ '':1}'') @ CHR 0x00 # [])
      (initialise_json_pool 4))
     = Inr None \<and>
   consumed (parse_strlen (Suc (Suc (Suc (Suc (Suc 0))))) some_env some_lexer
      ((''{'' @ quoted ''a'' @ '':[],'' @ quoted ''b'' @ '':1}'') @ CHR 0x00 # [])
      (initialise_json_pool 4))
     = Inr 7 \<and>
   returned (parse_strlen (Suc (Suc (Suc (Suc (Suc 0))))) some_env some_lexer
      ((''{'' @ quoted ''a'' @ '':[]}'') @ CHR 0x00 # [])
      (initialise_json_pool 4))
     = Inr None"
  by (simp add: lexer_eval pool_eval parse_eval some_env_def some_lexer_def
      initialise_json_pool_def property_key_def)

section \<open>String tokens\<close>

lemma byte_is_quote: "byte b = 34 \<longleftrightarrow> b = CHR 0x22"
proof -
  have "byte b = byte CHR 0x22 \<longleftrightarrow> b = CHR 0x22"
    by (rule of_char_eq_iff)
  then show ?thesis
    by simp
qed

lemma bounds_token_len [simp]:
  "in_bounds (lx\<lparr>token_len := n\<rparr>) = in_bounds lx" "unread (lx\<lparr>token_len := n\<rparr>) = unread lx"
  "in_bounds (lx\<lparr>token_src := k\<rparr>) = in_bounds lx" "unread (lx\<lparr>token_src := k\<rparr>) = unread lx"
  by (simp_all add: in_bounds_def unread_def)

lemma string_loop_unread:
  "in_bounds lx \<Longrightarrow>
   string_loop lx =
     (if CHR 0x22 \<in> set (unread lx)
      then Inr (String_token,
             (moved (Suc (length (takeWhile inside (unread lx)))) lx)
               \<lparr>token_len := token_len lx + of_nat (length (takeWhile inside (unread lx)))\<rparr>)
      else Inr (Error_token,
             (moved (length (unread lx)) lx)
               \<lparr>token_len := token_len lx + of_nat (length (unread lx))\<rparr>))"
proof (induction "unread lx" arbitrary: lx)
  case Nil
  then have "length_left lx = 0"
    by (simp add: unread_Nil)
  with Nil(1) [symmetric] show ?case
    by (simp add: string_loop.simps [of lx])
next
  case (Cons b bs)
  note facts = unread_Cons [OF Cons.prems Cons.hyps(2) [symmetric]]
  have step: "lx\<lparr>length_left := length_left lx - 1, src := src lx + 1\<rparr> = moved 1 lx"
    by (simp add: moved_def)
  from facts have rd: "deref lx (src lx) = Inr (byte b)"
    by (simp add: deref_def)
  show ?case
  proof (cases "b = CHR 0x22")
    case True
    with facts(1) rd Cons.hyps(2) [symmetric] show ?thesis
      by (simp add: string_loop.simps [of lx] step moved_def)
  next
    case False
    let ?lx = "(moved 1 lx)\<lparr>token_len := token_len lx + 1\<rparr>"
    have "unread ?lx = bs" "in_bounds ?lx"
      using facts(5,6) by simp_all
    from Cons.hyps(1) [of ?lx] this
    have "string_loop ?lx =
       (if CHR 0x22 \<in> set bs
        then Inr (String_token,
               (moved (Suc (length (takeWhile inside bs))) ?lx)
                 \<lparr>token_len := token_len ?lx + of_nat (length (takeWhile inside bs))\<rparr>)
        else Inr (Error_token,
               (moved (length bs) ?lx)\<lparr>token_len := token_len ?lx + of_nat (length bs)\<rparr>))"
      by simp
    moreover have "string_loop lx = string_loop ?lx"
      using False facts(1) rd
      by (simp add: string_loop.simps [of lx] step byte_is_quote moved_def)
    ultimately show ?thesis
      using False Cons.hyps(2) [symmetric]
      by (simp add: moved_def)
  qed
qed

lemma unread_moved:
  assumes "in_bounds lx" "j \<le> length (unread lx)"
  shows "unread (moved j lx) = drop j (unread lx)" "in_bounds (moved j lx)"
proof -
  from assms have j: "j \<le> unat (length_left lx)"
    by (simp add: length_unread)
  then have uj: "unat (of_nat j :: uint) = j"
    by (rule le_unat_uoi)
  with j have "(of_nat j :: uint) \<le> length_left lx"
    by (simp add: word_le_nat_alt)
  then have sub: "unat (length_left lx - of_nat j) = unat (length_left lx) - j"
    using uj by (simp add: unat_sub)
  show "unread (moved j lx) = drop j (unread lx)"
    by (simp add: unread_def moved_def sub drop_take add.commute)
  from assms(1) j show "in_bounds (moved j lx)"
    by (simp add: in_bounds_def moved_def sub)
qed

text \<open>
  C7, as the code has it. Called on a lexer within bounds whose next unread byte is the
  opening quote, \<open>get_string\<close> returns a \<open>String\<close> token if a \<^verbatim>\<open>"\<close> follows: the token
  starts behind the opening quote and covers the bytes up to the first \<^verbatim>\<open>"\<close> after it,
  whatever byte stands in front of that \<^verbatim>\<open>"\<close>; the buffer is not changed, and the lexer
  rests behind the closing quote. If no \<^verbatim>\<open>"\<close> follows in the unread input, the token is
  \<open>Error\<close>.
\<close>

theorem get_string_token:
  "in_bounds lx \<and> unread lx = q # bs \<longrightarrow>
     (CHR 0x22 \<in> set bs \<longrightarrow>
        (\<exists>lx'. get_string lx = Inr (String_token, lx') \<and>
           token_src lx' = src lx + 1 \<and>
           unat (token_len lx') = length (takeWhile inside bs) \<and>
           take (unat (token_len lx')) (drop (token_src lx') (buf lx')) = takeWhile inside bs \<and>
           buf lx' = buf lx \<and>
           unread lx' = tl (dropWhile inside bs))) \<and>
     (CHR 0x22 \<notin> set bs \<longrightarrow> (\<exists>lx'. get_string lx = Inr (Error_token, lx')))"
proof (intro impI, elim conjE)
  assume ok: "in_bounds lx" and rd: "unread lx = q # bs"
  note facts = unread_Cons [OF ok rd]
  let ?l = "(moved 1 lx)\<lparr>token_src := src (moved 1 lx), token_len := 0\<rparr>"
  let ?k = "length (takeWhile inside bs)"
  have call: "get_string lx = string_loop ?l"
    by (simp add: get_string_def Let_def facts(4))
  have l: "unread ?l = bs" "in_bounds ?l"
    using facts(5,6) by simp_all
  note loop = string_loop_unread [OF l(2), unfolded l(1)]
  show "(CHR 0x22 \<in> set bs \<longrightarrow>
        (\<exists>lx'. get_string lx = Inr (String_token, lx') \<and>
           token_src lx' = src lx + 1 \<and>
           unat (token_len lx') = ?k \<and>
           take (unat (token_len lx')) (drop (token_src lx') (buf lx')) = takeWhile inside bs \<and>
           buf lx' = buf lx \<and>
           unread lx' = tl (dropWhile inside bs))) \<and>
     (CHR 0x22 \<notin> set bs \<longrightarrow> (\<exists>lx'. get_string lx = Inr (Error_token, lx')))"
  proof (intro conjI impI)
    assume none: "CHR 0x22 \<notin> set bs"
    with call loop show "\<exists>lx'. get_string lx = Inr (Error_token, lx')"
      by simp
  next
    assume found: "CHR 0x22 \<in> set bs"
    let ?r = "(moved (Suc ?k) ?l)\<lparr>token_len := token_len ?l + of_nat ?k\<rparr>"
    from found call loop have res: "get_string lx = Inr (String_token, ?r)"
      by simp
    from found have "dropWhile inside bs \<noteq> []"
      by (auto simp: dropWhile_eq_Nil_conv)
    moreover have "length (takeWhile inside bs) + length (dropWhile inside bs) = length bs"
      by (metis length_append takeWhile_dropWhile_id)
    ultimately have less: "?k < length bs"
      by (cases "dropWhile inside bs") auto
    have "length bs = unat (length_left (moved 1 lx))"
      using length_unread [OF facts(6)] facts(5) by simp
    with less have "?k \<le> unat (length_left (moved 1 lx))"
      by simp
    then have uk: "unat (of_nat ?k :: uint) = ?k"
      by (rule le_unat_uoi)
    have view: "take ?k (drop (src lx + 1) (buf lx)) = takeWhile inside bs"
    proof -
      have "bs = take (unat (length_left (moved 1 lx))) (drop (src lx + 1) (buf lx))"
        using facts(5) by (simp add: unread_def moved_def)
      then have "take ?k bs = take ?k (drop (src lx + 1) (buf lx))"
        using \<open>?k \<le> unat (length_left (moved 1 lx))\<close>
        by (metis min.absorb1 take_take)
      moreover have "take ?k bs = takeWhile inside bs"
        by (rule takeWhile_eq_take [symmetric])
      ultimately show ?thesis
        by simp
    qed
    have rest: "unread ?r = tl (dropWhile inside bs)"
    proof -
      from less l have "unread (moved (Suc ?k) ?l) = drop (Suc ?k) bs"
        using unread_moved(1) [of ?l "Suc ?k"] by simp
      also have "\<dots> = tl (drop ?k bs)"
        by (simp add: drop_Suc drop_tl)
      also have "drop ?k bs = dropWhile inside bs"
        by (rule dropWhile_eq_drop [symmetric])
      finally show ?thesis
        by simp
    qed
    have "token_src ?r = src lx + 1" "unat (token_len ?r) = ?k" "buf ?r = buf lx"
      using uk by (simp_all add: moved_def)
    moreover from view have "take (unat (token_len ?r)) (drop (token_src ?r) (buf ?r))
        = takeWhile inside bs"
      using uk by (simp add: moved_def)
    ultimately show "\<exists>lx'. get_string lx = Inr (String_token, lx') \<and>
           token_src lx' = src lx + 1 \<and>
           unat (token_len lx') = ?k \<and>
           take (unat (token_len lx')) (drop (token_src lx') (buf lx')) = takeWhile inside bs \<and>
           buf lx' = buf lx \<and>
           unread lx' = tl (dropWhile inside bs)"
      using res rest by blast
  qed
qed

theorem get_string_token_witness:
  "in_bounds (some_lexer\<lparr>buf := quoted ''ab'' @ '',1'', length_left := 6\<rparr>) \<and>
   unread (some_lexer\<lparr>buf := quoted ''ab'' @ '',1'', length_left := 6\<rparr>)
     = CHR 0x22 # (''ab'' @ [CHR 0x22] @ '',1'') \<and>
   CHR 0x22 \<in> set (''ab'' @ [CHR 0x22] @ '',1'') \<and>
   (\<exists>lx'. get_string (some_lexer\<lparr>buf := quoted ''ab'' @ '',1'', length_left := 6\<rparr>)
        = Inr (String_token, lx') \<and>
      token_src lx' = 1 \<and> unat (token_len lx') = 2 \<and>
      take (unat (token_len lx')) (drop (token_src lx') (buf lx')) = ''ab'' \<and>
      unread lx' = '',1'')"
proof -
  have inside: "in_bounds (some_lexer\<lparr>buf := quoted ''ab'' @ '',1'', length_left := 6\<rparr>)"
    by (simp add: in_bounds_def some_lexer_def)
  have rd: "unread (some_lexer\<lparr>buf := quoted ''ab'' @ '',1'', length_left := 6\<rparr>)
      = CHR 0x22 # (''ab'' @ [CHR 0x22] @ '',1'')"
    by (simp add: unread_def some_lexer_def)
  have at: "src (some_lexer\<lparr>buf := quoted ''ab'' @ '',1'', length_left := 6\<rparr>) = 0"
    by (simp add: some_lexer_def)
  from inside rd
    get_string_token [of "some_lexer\<lparr>buf := quoted ''ab'' @ '',1'', length_left := 6\<rparr>"
      "CHR 0x22" "''ab'' @ [CHR 0x22] @ '',1''"]
  show ?thesis
    by (auto simp: at some_lexer_def)
qed

text \<open>
  C7 as stated fails on an escaped quote: in \<^verbatim>\<open>"a\"b"\<close> the token ends at the \<^verbatim>\<open>"\<close> behind
  the backslash, covering the two bytes \<^verbatim>\<open>a\\<close>.
\<close>

theorem escaped_quote_ends_token:
  "then_do
     (get_string (some_lexer\<lparr>buf := quoted (''a'' @ [CHR 0x5C, CHR 0x22] @ ''b''),
                    length_left := 6\<rparr>))
     (\<lambda>(token, lx'). Inr (token, take (unat (token_len lx')) (drop (token_src lx') (buf lx'))))
   = Inr (String_token, [CHR ''a'', CHR 0x5C])"
  by (simp add: some_lexer_def lexer_eval)

section \<open>Printing containers\<close>

lemma insert_key_keys: "fst ` set (insert_key tree key v) = insert key (fst ` set tree)"
proof (induction tree)
  case Nil
  show ?case
    by simp
next
  case (Cons e tree)
  obtain k w where e: "e = (k, w)"
    by (cases e)
  show ?case
    by (simp add: e Cons.IH insert_commute)
qed

lemma insert_key_ascending: "ascending tree \<Longrightarrow> ascending (insert_key tree key v)"
  unfolding ascending_def
proof (induction tree)
  case Nil
  then show ?case
    by simp
next
  case (Cons e tree)
  obtain k w where e: "e = (k, w)"
    by (cases e)
  from Cons.prems e have lower: "\<forall>x \<in> fst ` set tree. k < x"
    and rest: "sorted_wrt (<) (map fst tree)"
    by auto
  show ?case
  proof (cases "key < k")
    case True
    with Cons.prems e lower show ?thesis
      by (auto intro: less_trans)
  next
    case False
    show ?thesis
    proof (cases "key = k")
      case True
      with Cons.prems e show ?thesis
        by simp
    next
      case other: False
      with False have "k < key"
        by simp
      with False other lower Cons.IH [OF rest] e show ?thesis
        using insert_key_keys [of tree key v] by auto
    qed
  qed
qed

lemma last_key_is_Max:
  "tree \<noteq> [] \<Longrightarrow> ascending tree \<Longrightarrow> fst (last tree) = Max (fst ` set tree)"
  unfolding ascending_def
proof (induction tree)
  case Nil
  then show ?case
    by simp
next
  case (Cons e tree)
  show ?case
  proof (cases "tree = []")
    case True
    then show ?thesis
      by simp
  next
    case False
    with Cons have IH: "fst (last tree) = Max (fst ` set tree)"
      by simp
    from False have "last tree \<in> set tree"
      by simp
    with Cons.prems(2) have "fst e < fst (last tree)"
      by auto
    with False IH show ?thesis
      by (simp add: max_def)
  qed
qed

lemma suppressed_only_at_last:
  assumes "ascending tree" "distinct (map snd tree)" "(k, v) \<in> set tree"
  shows "(v = snd (last tree)) = (k = Max (fst ` set tree))"
proof -
  from assms(3) have ne: "tree \<noteq> []"
    by auto
  then have l: "last tree \<in> set tree"
    by simp
  from assms(1) have "distinct (map fst tree)"
    unfolding ascending_def by (simp add: strict_sorted_iff)
  then have keys: "inj_on fst (set tree)"
    by (simp add: distinct_map)
  from assms(2) have vals: "inj_on snd (set tree)"
    by (simp add: distinct_map)
  have "(k, v) = last tree" if "v = snd (last tree)"
    using inj_onD [OF vals, of "(k, v)" "last tree"] that l assms(3) by simp
  moreover have "(k, v) = last tree" if "k = fst (last tree)"
    using inj_onD [OF keys, of "(k, v)" "last tree"] that l assms(3) by simp
  ultimately have "(v = snd (last tree)) = (k = fst (last tree))"
    by (metis fst_conv snd_conv)
  then show ?thesis
    by (simp add: last_key_is_Max [OF ne assms(1)])
qed

lemma apply_print_array_item:
  assumes "\<And>k v out. (k, v) \<in> set tree \<Longrightarrow> pv v out = Inr (out @ body v)"
  shows "apply_fn tree (print_array_item pv) context acc
    = Inr (acc @ array_items body context tree)"
  using assms
proof (induction tree arbitrary: acc)
  case Nil
  then show ?case
    by (simp add: array_items_def)
next
  case (Cons e tree)
  obtain k v where e: "e = (k, v)"
    by (cases e)
  have one: "print_array_item pv k v context acc = Inr (acc @ body v @ comma_unless context v)"
    using Cons.prems [of k v acc] e by (simp add: print_array_item_def comma_unless_def)
  have "apply_fn tree (print_array_item pv) context (acc @ body v @ comma_unless context v)
      = Inr ((acc @ body v @ comma_unless context v) @ array_items body context tree)"
  proof (rule Cons.IH)
    fix k' v' out
    assume "(k', v') \<in> set tree"
    then show "pv v' out = Inr (out @ body v')"
      by (intro Cons.prems [of k']) simp
  qed
  with one e show ?case
    by (simp add: array_items_def)
qed

lemma apply_print_name_value:
  assumes "\<And>k v out. (k, v) \<in> set tree \<Longrightarrow> pv v out = Inr (out @ body v)"
  shows "apply_fn tree (print_name_value pv) context acc
    = Inr (acc @ name_values body context tree)"
  using assms
proof (induction tree arbitrary: acc)
  case Nil
  then show ?case
    by (simp add: name_values_def)
next
  case (Cons e tree)
  obtain k v where e: "e = (k, v)"
    by (cases e)
  let ?name = "[Text ''  '', Number (sint (- (word_of_int k :: uint))), Text '' : '']"
  have one: "print_name_value pv k v context acc
      = Inr (acc @ ?name @ body v @ comma_unless context v)"
    using Cons.prems [of k v "acc @ ?name"] e
    by (simp add: print_name_value_def comma_unless_def)
  have "apply_fn tree (print_name_value pv) context (acc @ ?name @ body v @ comma_unless context v)
      = Inr ((acc @ ?name @ body v @ comma_unless context v) @ name_values body context tree)"
  proof (rule Cons.IH)
    fix k' v' out
    assume "(k', v') \<in> set tree"
    then show "pv v' out = Inr (out @ body v')"
      by (intro Cons.prems [of k']) simp
  qed
  with one e show ?case
    by (simp add: name_values_def)
qed

text \<open>
  C4, as the code has it. For a non-empty array or object whose members print, \<open>print\<close>
  emits the members in the order of the map, each followed by a comma unless its value
  pointer is the value pointer of the last entry of the map. The order of the map is
  ascending by key and its last entry has the largest key; when the value pointers held
  in the map are pairwise distinct, the one member without a comma is the entry with the
  largest key.
\<close>

theorem print_members:
  "tree \<noteq> [] \<and> (\<forall>(k, v) \<in> set tree. \<forall>out. print n mem slots v out = Inr (out @ body v)) \<longrightarrow>
     (slots i = JArray tree \<longrightarrow>
        print (Suc n) mem slots (Some i) []
          = Inr ([Text '' [ ''] @ array_items body (snd (last tree)) tree @ [Text ''] ''])) \<and>
     (slots i = JObject tree \<longrightarrow>
        print (Suc n) mem slots (Some i) []
          = Inr ([Text '' { ''] @ name_values body (snd (last tree)) tree @ [Text '' } ''])) \<and>
     (ascending tree \<longrightarrow> fst (last tree) = Max (fst ` set tree) \<and>
        (distinct (map snd tree) \<longrightarrow>
           (\<forall>(k, v) \<in> set tree.
              (comma_unless (snd (last tree)) v = ([] :: 'f printed list))
                = (k = Max (fst ` set tree)))))"
proof (intro impI, elim conjE)
  assume ne: "tree \<noteq> []"
    and members: "\<forall>(k, v) \<in> set tree. \<forall>out. print n mem slots v out = Inr (out @ body v)"
  then have pv: "(\<lambda>v out'. print n mem slots v out') v out = Inr (out @ body v)"
    if "(k, v) \<in> set tree" for k v out
    using that by auto
  from ne have ctx: "last_value tree = Inr (snd (last tree))"
    by (simp add: last_value_def get_value_def last_entry_def split_beta)
  have arr: "print (Suc n) mem slots (Some i) []
      = Inr ([Text '' [ ''] @ array_items body (snd (last tree)) tree @ [Text ''] ''])"
    if "slots i = JArray tree"
    using that apply_print_array_item [of tree _ body, OF pv] by (simp add: ctx)
  have obj: "print (Suc n) mem slots (Some i) []
      = Inr ([Text '' { ''] @ name_values body (snd (last tree)) tree @ [Text '' } ''])"
    if "slots i = JObject tree"
    using that apply_print_name_value [of tree _ body, OF pv] by (simp add: ctx)
  have only: "(comma_unless (snd (last tree)) v = ([] :: 'f printed list))
      = (k = Max (fst ` set tree))"
    if "ascending tree" "distinct (map snd tree)" "(k, v) \<in> set tree" for k v
    using suppressed_only_at_last [OF that] by (simp add: comma_unless_def)
  from arr obj only last_key_is_Max [OF ne]
  show "(slots i = JArray tree \<longrightarrow>
        print (Suc n) mem slots (Some i) []
          = Inr ([Text '' [ ''] @ array_items body (snd (last tree)) tree @ [Text ''] ''])) \<and>
     (slots i = JObject tree \<longrightarrow>
        print (Suc n) mem slots (Some i) []
          = Inr ([Text '' { ''] @ name_values body (snd (last tree)) tree @ [Text '' } ''])) \<and>
     (ascending tree \<longrightarrow> fst (last tree) = Max (fst ` set tree) \<and>
        (distinct (map snd tree) \<longrightarrow>
           (\<forall>(k, v) \<in> set tree.
              (comma_unless (snd (last tree)) v = ([] :: 'f printed list))
                = (k = Max (fst ` set tree)))))"
    by blast
qed

theorem print_members_witness:
  "print (Suc (Suc 0)) []
     ((\<lambda>i. JUnused :: unit JSON)
        (0 := JArray [(0, Some 1), (1, Some 2)], 1 := JUnsigned 10, 2 := JUnsigned 20))
     (Some 0) []
     = Inr [Text '' [ '', Number 10, Text '','', Number 20, Text ''] ''] \<and>
   print (Suc (Suc 0)) []
     ((\<lambda>i. JUnused :: unit JSON)
        (0 := JObject [(- 2, Some 2), (- 1, Some 1)], 1 := JUnsigned 10, 2 := JUnsigned 20))
     (Some 0) []
     = Inr [Text '' { '', Text ''  '', Number 2, Text '' : '', Number 20, Text '','',
            Text ''  '', Number 1, Text '' : '', Number 10, Text '' } ''] \<and>
   fst (last [(0 :: int, Some (1 :: nat)), (1, Some 2)])
     = Max (fst ` set [(0 :: int, Some (1 :: nat)), (1, Some 2)]) \<and>
   (comma_unless (Some (2 :: nat)) (Some 1) = ([] :: unit printed list)) = ((0 :: int) = 1)"
proof -
  let ?body = "\<lambda>v. if v = Some (1 :: nat) then [Number 10 :: unit printed] else [Number 20]"
  let ?arr = "(\<lambda>i. JUnused :: unit JSON)
      (0 := JArray [(0, Some 1), (1, Some 2)], 1 := JUnsigned 10, 2 := JUnsigned 20)"
  let ?obj = "(\<lambda>i. JUnused :: unit JSON)
      (0 := JObject [(- 2, Some 2), (- 1, Some 1)], 1 := JUnsigned 10, 2 := JUnsigned 20)"
  have a: "[(0 :: int, Some (1 :: nat)), (1, Some 2)] \<noteq> [] \<and>
      (\<forall>(k, v) \<in> set [(0 :: int, Some (1 :: nat)), (1, Some 2)].
         \<forall>out. print (Suc 0) [] ?arr v out = Inr (out @ ?body v))"
    by simp
  have b: "[(- 2 :: int, Some (2 :: nat)), (- 1, Some 1)] \<noteq> [] \<and>
      (\<forall>(k, v) \<in> set [(- 2 :: int, Some (2 :: nat)), (- 1, Some 1)].
         \<forall>out. print (Suc 0) [] ?obj v out = Inr (out @ ?body v))"
    by simp
  have up: "ascending [(0 :: int, Some (1 :: nat)), (1, Some 2)]"
    by (simp add: ascending_def)
  from up
    print_members [of "[(0, Some 1), (1, Some 2)]" "Suc 0" "[]" ?arr ?body 0,
      THEN mp, OF a]
    print_members [of "[(- 2, Some 2), (- 1, Some 1)]" "Suc 0" "[]" ?obj ?body 0,
      THEN mp, OF b]
  show ?thesis
    by (simp add: array_items_def name_values_def comma_unless_def)
qed

text \<open>
  C4 as stated fails when one node is stored under two keys: the array built by
  \<^verbatim>\<open>a = new_array(); x = new_unsigned(7); a->insert_array_item(0, x);
  a->insert_array_item(1, x);\<close> prints without any comma, the separator being suppressed
  also for the entry with key 0, which is not the largest key.
\<close>

theorem shared_value_loses_comma:
  "fst (new_array (initialise_json_pool 2 :: unit Pool)) = Some 0 \<and>
   fst (new_unsigned 7 (snd (new_array (initialise_json_pool 2 :: unit Pool)))) = Some 1 \<and>
   then_do
     (call_on (Some 0) (insert_array_item 0 (Some 1))
        (snd (new_unsigned 7 (snd (new_array (initialise_json_pool 2 :: unit Pool))))))
     (\<lambda>P. then_do (call_on (Some 0) (insert_array_item 1 (Some 1)) P)
        (\<lambda>P'. then_do (node_at P' (Some 0))
           (\<lambda>a. then_do (print_from (Suc (Suc 0)) [] P' (Some 0))
              (\<lambda>out. Inr (a, out)))))
   = Inr (JArray [(0, Some 1), (1, Some 1)],
          [Text '' [ '', Number 7, Number 7, Text ''] ''])"
  by (simp add: pool_eval initialise_json_pool_def insert_array_item_def array_key_def
      print_from_def print_array_item_def last_value_def get_value_def last_entry_def)

section \<open>The length counter after a literal\<close>

text \<open>
  C1 evaluated. After the literal \<^verbatim>\<open>null\<close> in a buffer of declared length 4 the lexer
  has moved 4 bytes and nothing is left unread, but the counter stands at 8; likewise
  after \<^verbatim>\<open>true\<close> and \<^verbatim>\<open>false\<close>. In \<^verbatim>\<open>[null\<close> with declared length 5 the \<open>get_token\<close> that
  follows the literal reads the byte at offset 5: on a buffer of exactly 5 bytes that
  read is out of bounds, and on longer buffers that agree in their first 5 bytes the
  result of \<open>parse\<close> depends on the byte at offset 5.
\<close>

theorem literal_inflates_length:
  "then_do (get_token some_env (some_lexer\<lparr>buf := ''null'', length_left := 4\<rparr>))
     (\<lambda>(token, lx). Inr (token, src lx, length_left lx)) = Inr (Null_token, 4, 8) \<and>
   then_do (get_token some_env (some_lexer\<lparr>buf := ''true'', length_left := 4\<rparr>))
     (\<lambda>(token, lx). Inr (token, src lx, length_left lx)) = Inr (True_token, 4, 8) \<and>
   then_do (get_token some_env (some_lexer\<lparr>buf := ''false'', length_left := 5\<rparr>))
     (\<lambda>(token, lx). Inr (token, src lx, length_left lx)) = Inr (False_token, 5, 10) \<and>
   parse (Suc (Suc (Suc (Suc 0)))) some_env some_lexer ''[null'' 5 (initialise_json_pool 2)
     = Inl OutOfBounds \<and>
   returned (parse (Suc (Suc (Suc (Suc 0)))) some_env some_lexer ''[null]'' 5
       (initialise_json_pool 2)) = Inr (Some (JArray [(0, Some 1)])) \<and>
   returned (parse (Suc (Suc (Suc (Suc 0)))) some_env some_lexer ''[null}'' 5
       (initialise_json_pool 2)) = Inr None"
  by (simp add: lexer_eval pool_eval parse_eval some_lexer_def some_env_def
      initialise_json_pool_def array_key_def)

end
